theory Spec2Isabelle
  imports Main "HOL-Library.Word"
begin

unbundle bit_operations_syntax

section \<open>The machine: 64-bit addresses, a byte-addressed store\<close>

text \<open>
  \<^verbatim>\<open>mm.c\<close> is modelled for an LP64 little-endian target (the repository's other file is
  x86-64 assembly): \<^verbatim>\<open>size_t\<close> and pointers are 64-bit words, arithmetic on them
  wraps around, and \<^verbatim>\<open>offsetof(block_t, payload)\<close> is \<^verbatim>\<open>sizeof(size_t) = 8\<close>.
  Memory is a total map from addresses to bytes; \<^verbatim>\<open>GET\<close> and \<^verbatim>\<open>PUT\<close> move eight bytes.
\<close>

type_synonym addr = "64 word"
type_synonym size_t = "64 word"
type_synonym byte = "8 word"
type_synonym memory = "addr \<Rightarrow> byte"

definition NULL :: addr where
  "NULL = 0"

text \<open>Byte \<open>i\<close> (counted from the least significant one) of a 64-bit value.\<close>

definition byte_of :: "size_t \<Rightarrow> nat \<Rightarrow> byte" where
  "byte_of v i = ucast (drop_bit (8 * i) v)"

text \<open>\<^verbatim>\<open>#define GET(p) (*(size_t *)(p))\<close>\<close>

definition GET :: "memory \<Rightarrow> addr \<Rightarrow> size_t" where
  "GET m p =
     ucast (m p) OR push_bit 8 (ucast (m (p + 1))) OR push_bit 16 (ucast (m (p + 2)))
     OR push_bit 24 (ucast (m (p + 3))) OR push_bit 32 (ucast (m (p + 4)))
     OR push_bit 40 (ucast (m (p + 5))) OR push_bit 48 (ucast (m (p + 6)))
     OR push_bit 56 (ucast (m (p + 7)))"

text \<open>\<^verbatim>\<open>#define PUT(p, val) (*(size_t *)(p) = (val))\<close>: the eight bytes at \<open>p\<close> change.\<close>

definition PUT :: "memory \<Rightarrow> addr \<Rightarrow> size_t \<Rightarrow> memory" where
  "PUT m p v = (\<lambda>a. if unat (a - p) < 8 then byte_of v (unat (a - p)) else m a)"

text \<open>
  \<^verbatim>\<open>memcpy(dst, src, n)\<close>: the \<open>n\<close> bytes at \<open>dst\<close> become the bytes that were at
  \<open>src\<close>. C leaves overlapping ranges undefined; the model reads every source byte
  from the memory before the call.
\<close>

definition memcpy :: "memory \<Rightarrow> addr \<Rightarrow> addr \<Rightarrow> size_t \<Rightarrow> memory" where
  "memcpy m dst src n = (\<lambda>a. if a - dst < n then m (src + (a - dst)) else m a)"

section \<open>Constants and macros of \<^verbatim>\<open>mm.c\<close>\<close>

definition WSIZE :: size_t where
  "WSIZE = 4"

definition DSIZE :: size_t where
  "DSIZE = 8"

definition OVERHEAD :: size_t where
  "OVERHEAD = 8"

text \<open>\<^verbatim>\<open>#define PACK(size, alloc) ((size) | (alloc))\<close>\<close>

definition PACK :: "size_t \<Rightarrow> size_t \<Rightarrow> size_t" where
  "PACK sz alloc = sz OR alloc"

text \<open>
  The two decodings of a header word, \<^verbatim>\<open>w & ~0x7\<close> and \<^verbatim>\<open>w & 0x1\<close>. The literal
  \<^verbatim>\<open>~0x7\<close> is the \<^verbatim>\<open>int\<close> \<open>-8\<close>, converted to \<^verbatim>\<open>size_t\<close> with all high bits set.
\<close>

definition hdr_size :: "size_t \<Rightarrow> size_t" where
  "hdr_size w = w AND NOT 7"

definition hdr_alloc :: "size_t \<Rightarrow> size_t" where
  "hdr_alloc w = w AND 1"

text \<open>\<^verbatim>\<open>#define GET_SIZE(p) (GET(p) & ~0x7)\<close> and \<^verbatim>\<open>#define GET_ALLOC(p) (GET(p) & 0x1)\<close>\<close>

definition GET_SIZE :: "memory \<Rightarrow> addr \<Rightarrow> size_t" where
  "GET_SIZE m p = hdr_size (GET m p)"

definition GET_ALLOC :: "memory \<Rightarrow> addr \<Rightarrow> size_t" where
  "GET_ALLOC m p = hdr_alloc (GET m p)"

text \<open>\<^verbatim>\<open>HDRP(p)\<close>: the block whose payload starts at \<open>p\<close>.\<close>

definition HDRP :: "addr \<Rightarrow> addr" where
  "HDRP p = p - 8"

text \<open>\<^verbatim>\<open>NEXT_BLKP(block)\<close>: the address \<^verbatim>\<open>GET_SIZE(block)\<close> bytes further on.\<close>

definition NEXT_BLKP :: "memory \<Rightarrow> addr \<Rightarrow> addr" where
  "NEXT_BLKP m block = block + GET_SIZE m block"

text \<open>\<^verbatim>\<open>GET_PLD_PTR(block)\<close>: the address of \<^verbatim>\<open>block->payload\<close>.\<close>

definition GET_PLD_PTR :: "addr \<Rightarrow> addr" where
  "GET_PLD_PTR block = block + 8"

section \<open>Allocator state and the growth primitive\<close>

text \<open>
  The globals \<^verbatim>\<open>heap_start\<close> and \<^verbatim>\<open>heap_end\<close>, the memory, and the two variables of the
  growth primitive (the current break and the highest address it may reach).
\<close>

record state =
  mem :: memory
  heap_start :: addr
  heap_end :: addr
  mem_brk :: addr
  mem_max_addr :: addr

text \<open>
  Modelled from the spec: \<^verbatim>\<open>mem_sbrk\<close> lives in \<^verbatim>\<open>memlib.c\<close>, which is not among
  the source files modelled here. The spec describes it as "extend the heap by N bytes", returning
  the base address of the newly added region, always contiguous immediately after the
  previous end, or a failure signal if the address space cannot grow. \<^verbatim>\<open>mm.c\<close> tests the
  result against \<^verbatim>\<open>NULL\<close>, so the failure signal is \<open>NULL\<close> here.
  The byte count is taken as a \<^verbatim>\<open>size_t\<close>, as \<^verbatim>\<open>mm.c\<close> passes it.
\<close>

definition mem_sbrk :: "state \<Rightarrow> size_t \<Rightarrow> state \<times> addr" where
  "mem_sbrk s incr =
     (if unat (mem_brk s) + unat incr \<le> unat (mem_max_addr s)
      then (s\<lparr>mem_brk := mem_brk s + incr\<rparr>, mem_brk s)
      else (s, NULL))"

section \<open>The routines of \<^verbatim>\<open>mm.c\<close>\<close>

text \<open>\<^verbatim>\<open>exit(status)\<close> ends the process: nothing is returned to the caller.\<close>

datatype error = Exit int

text \<open>\<^verbatim>\<open>mm_init\<close>: returns the new state and the C return value (\<open>0\<close> or \<open>-1\<close>).\<close>

definition mm_init :: "state \<Rightarrow> state \<times> int" where
  "mm_init s =
     (let (s1, bp) = mem_sbrk s WSIZE in
      if bp = NULL then (s1, -1)
      else
        let bp' = bp + WSIZE in
        (s1\<lparr>mem := PUT (mem s1) bp 0, heap_start := bp', heap_end := bp'\<rparr>, 0))"

text \<open>The adjusted block size computed at the head of \<^verbatim>\<open>mm_malloc\<close> (lines 106 to 109).\<close>

definition adjusted_size :: "size_t \<Rightarrow> size_t" where
  "adjusted_size sz =
     (if sz \<le> DSIZE then DSIZE + OVERHEAD
      else OVERHEAD + ((sz + (DSIZE - 1)) div DSIZE) * DSIZE)"

text \<open>\<^verbatim>\<open>extend_heap\<close>: asks for an even number of words and moves \<^verbatim>\<open>heap_end\<close>.\<close>

definition extend_heap :: "state \<Rightarrow> size_t \<Rightarrow> state \<times> addr" where
  "extend_heap s words =
     (let words' = (if words mod 2 = 1 then words + 1 else words);
          sz = words' * WSIZE;
          (s1, bp) = mem_sbrk s sz
      in if bp = NULL then (s1, NULL)
         else (s1\<lparr>heap_end := heap_end s1 + sz\<rparr>, bp))"

text \<open>\<^verbatim>\<open>place\<close>: the second header goes where \<^verbatim>\<open>NEXT_BLKP\<close> points after the first write.\<close>

definition place :: "state \<Rightarrow> addr \<Rightarrow> size_t \<Rightarrow> state" where
  "place s bp asize =
     (let csize = GET_SIZE (mem s) bp in
      if 16 \<le> csize - asize then
        let m1 = PUT (mem s) bp (PACK asize 1);
            next_bp = NEXT_BLKP m1 bp
        in s\<lparr>mem := PUT m1 next_bp (PACK (csize - asize) 0)\<rparr>
      else s\<lparr>mem := PUT (mem s) bp (PACK csize 1)\<rparr>)"

text \<open>
  The loop of \<^verbatim>\<open>find_fit\<close>. Nothing in the code bounds the number of iterations, so the
  loop is a partial function: \<open>None\<close> is a scan that never ends.
\<close>

partial_function (option) find_fit_loop :: "memory \<Rightarrow> addr \<Rightarrow> size_t \<Rightarrow> addr \<Rightarrow> addr option" where
  "find_fit_loop m hend asize bp =
     (if bp = hend then Some NULL
      else if GET_ALLOC m bp = 0 \<and> asize \<le> GET_SIZE m bp then Some bp
      else find_fit_loop m hend asize (NEXT_BLKP m bp))"

definition find_fit :: "state \<Rightarrow> size_t \<Rightarrow> addr option" where
  "find_fit s asize = find_fit_loop (mem s) (heap_end s) asize (heap_start s)"

text \<open>\<^verbatim>\<open>coalesce\<close>: pointers compare as unsigned addresses.\<close>

definition coalesce :: "state \<Rightarrow> addr \<Rightarrow> state" where
  "coalesce s bp =
     (let next_block = NEXT_BLKP (mem s) bp in
      if next_block < heap_end s \<and> GET_ALLOC (mem s) bp = 0 \<and> GET_ALLOC (mem s) next_block = 0
      then
        let sz = GET_SIZE (mem s) bp + GET_SIZE (mem s) next_block;
            header = PACK sz 0
        in s\<lparr>mem := PUT (mem s) bp header\<rparr>
      else s)"

definition mm_free :: "state \<Rightarrow> addr \<Rightarrow> state" where
  "mm_free s bp =
     (let blockp = HDRP bp;
          sz = GET_SIZE (mem s) blockp;
          s1 = s\<lparr>mem := PUT (mem s) blockp (PACK sz 0)\<rparr>
      in coalesce s1 blockp)"

text \<open>
  \<^verbatim>\<open>mm_malloc\<close>: \<open>None\<close> when the scan of \<^verbatim>\<open>find_fit\<close> never ends, \<open>Inl (Exit 1)\<close> when the
  process is ended by \<^verbatim>\<open>exit(1)\<close>, otherwise the new state and the returned pointer.
\<close>

definition mm_malloc :: "state \<Rightarrow> size_t \<Rightarrow> (error + state \<times> addr) option" where
  "mm_malloc s sz =
     (let asize = adjusted_size sz in
      case find_fit s asize of
        None \<Rightarrow> None
      | Some bp \<Rightarrow>
          if bp \<noteq> NULL then Some (Inr (place s bp asize, GET_PLD_PTR bp))
          else
            let (s1, bp1) = extend_heap s (asize div WSIZE) in
            if bp1 = NULL then Some (Inl (Exit 1))
            else Some (Inr (place s1 bp1 asize, GET_PLD_PTR bp1)))"

text \<open>\<^verbatim>\<open>mm_realloc\<close>: the \<^verbatim>\<open>printf\<close> before \<^verbatim>\<open>exit(1)\<close> is not modelled.\<close>

definition mm_realloc :: "state \<Rightarrow> addr \<Rightarrow> size_t \<Rightarrow> (error + state \<times> addr) option" where
  "mm_realloc s ptr sz =
     (case mm_malloc s sz of
        None \<Rightarrow> None
      | Some (Inl e) \<Rightarrow> Some (Inl e)
      | Some (Inr (s1, newp)) \<Rightarrow>
          if newp = NULL then Some (Inl (Exit 1))
          else
            let copySize = GET_SIZE (mem s1) (HDRP ptr);
                copySize' = (if sz < copySize then sz else copySize);
                s2 = s1\<lparr>mem := memcpy (mem s1) newp ptr copySize'\<rparr>
            in Some (Inr (mm_free s2 ptr, newp)))"

section \<open>Notions used to state the properties\<close>

text \<open>
  \<open>round_up n k\<close>, after the spec's \<^verbatim>\<open>round_up(requested_size, 8)\<close>: \<open>n\<close> rounded up to a
  multiple of \<open>k\<close>, on unbounded naturals.
\<close>

definition round_up :: "nat \<Rightarrow> nat \<Rightarrow> nat" where
  "round_up n k = ((n + (k - 1)) div k) * k"

text \<open>
  A well-formed stretch of heap: \<open>chain m a bs e\<close> says that \<open>bs\<close> lists, in heap order,
  the blocks between \<open>a\<close> and \<open>e\<close>; every block is at least 16 bytes long, ends no later
  than \<open>e\<close> (so no address wraps around), and is followed at once by the next one.
\<close>

fun chain :: "memory \<Rightarrow> addr \<Rightarrow> addr list \<Rightarrow> addr \<Rightarrow> bool" where
  "chain m a [] e = (a = e)"
| "chain m a (b # bs) e =
     (b = a \<and> 16 \<le> unat (GET_SIZE m a) \<and> unat a + unat (GET_SIZE m a) \<le> unat e
      \<and> chain m (NEXT_BLKP m a) bs e)"

text \<open>What the first-fit search looks for, and the first such block of a list.\<close>

definition fits :: "memory \<Rightarrow> size_t \<Rightarrow> addr \<Rightarrow> bool" where
  "fits m asize b = (GET_ALLOC m b = 0 \<and> asize \<le> GET_SIZE m b)"

definition first_fit :: "memory \<Rightarrow> size_t \<Rightarrow> addr list \<Rightarrow> addr" where
  "first_fit m asize bs = (case List.find (fits m asize) bs of None \<Rightarrow> NULL | Some b \<Rightarrow> b)"

text \<open>No two neighbours in a list of blocks are both free.\<close>

fun no_adjacent_free :: "memory \<Rightarrow> addr list \<Rightarrow> bool" where
  "no_adjacent_free m (a # b # bs) =
     (\<not> (GET_ALLOC m a = 0 \<and> GET_ALLOC m b = 0) \<and> no_adjacent_free m (b # bs))"
| "no_adjacent_free m bs = True"

section \<open>A session on zeroed memory\<close>

text \<open>
  A process whose break starts at \<open>0x1000\<close> with room up to \<open>0x2000\<close>, all memory zero,
  and the states it passes through: \<^verbatim>\<open>mm_init\<close>, three times \<^verbatim>\<open>mm_malloc(1)\<close>, then
  \<^verbatim>\<open>mm_free\<close> of the first two blocks in either order. The header values \<open>- 16\<close>,
  \<open>- 32\<close> and \<open>- 48\<close> are \<open>2 ^ 64 - 16\<close>, \<open>2 ^ 64 - 32\<close> and \<open>2 ^ 64 - 48\<close>.
\<close>

definition boot :: state where
  "boot = \<lparr>mem = (\<lambda>_. 0), heap_start = 0, heap_end = 0, mem_brk = 0x1000,
            mem_max_addr = 0x2000\<rparr>"

definition empty_heap :: state where
  "empty_heap = \<lparr>mem = (\<lambda>_. 0), heap_start = 0x1004, heap_end = 0x1004, mem_brk = 0x1004,
                  mem_max_addr = 0x2000\<rparr>"

definition one_block :: state where
  "one_block = \<lparr>mem = PUT (PUT (\<lambda>_. 0) 0x1004 0x11) 0x1014 (- 16),
                 heap_start = 0x1004, heap_end = 0x1014, mem_brk = 0x1014,
                 mem_max_addr = 0x2000\<rparr>"

definition two_blocks :: state where
  "two_blocks = \<lparr>mem = PUT (PUT (mem one_block) 0x1014 0x11) 0x1024 (- 32),
                  heap_start = 0x1004, heap_end = 0x1024, mem_brk = 0x1024,
                  mem_max_addr = 0x2000\<rparr>"

definition three_blocks :: state where
  "three_blocks = \<lparr>mem = PUT (PUT (mem two_blocks) 0x1024 0x11) 0x1034 (- 48),
                    heap_start = 0x1004, heap_end = 0x1034, mem_brk = 0x1034,
                    mem_max_addr = 0x2000\<rparr>"

definition freed_first :: state where
  "freed_first = three_blocks\<lparr>mem := PUT (mem three_blocks) 0x1004 0x10\<rparr>"

definition freed_first_second :: state where
  "freed_first_second = freed_first\<lparr>mem := PUT (mem freed_first) 0x1014 0x10\<rparr>"

definition freed_second :: state where
  "freed_second = three_blocks\<lparr>mem := PUT (mem three_blocks) 0x1014 0x10\<rparr>"

definition freed_second_first :: state where
  "freed_second_first =
     freed_second\<lparr>mem := PUT (PUT (mem freed_second) 0x1004 0x10) 0x1004 0x20\<rparr>"

text \<open>The same session with no room left above the break.\<close>

definition empty_heap_full :: state where
  "empty_heap_full = empty_heap\<lparr>mem_max_addr := 0x1004\<rparr>"

definition one_block_full :: state where
  "one_block_full = one_block\<lparr>mem_max_addr := 0x1014\<rparr>"

text \<open>
  Two reallocations. In the first the caller has written eight bytes into the first
  payload of the three-block heap and asks for 20 bytes. In the second the request on
  the one-block heap is for \<open>2 ^ 64 - 1\<close> bytes; \<open>tiny_block\<close> is the heap after
  \<^verbatim>\<open>mm_malloc\<close> of that many bytes, \<open>wrapped\<close> the heap after \<^verbatim>\<open>mm_realloc\<close>.
\<close>

definition three_blocks_written :: state where
  "three_blocks_written =
     three_blocks\<lparr>mem := PUT (mem three_blocks) 0x100C 0x0123456789ABCDEF\<rparr>"

definition moved :: state where
  "moved = \<lparr>mem = PUT (memcpy (PUT (PUT (mem three_blocks_written) 0x1034 0x21) 0x1054 (- 80))
                        0x103C 0x100C 16) 0x1004 0x10,
             heap_start = 0x1004, heap_end = 0x1054, mem_brk = 0x1054, mem_max_addr = 0x2000\<rparr>"

definition tiny_block :: state where
  "tiny_block = \<lparr>mem = PUT (PUT (mem one_block) 0x1014 9) 0x101C (- 24),
                  heap_start = 0x1004, heap_end = 0x101C, mem_brk = 0x101C,
                  mem_max_addr = 0x2000\<rparr>"

definition wrapped :: state where
  "wrapped = \<lparr>mem = PUT (memcpy (PUT (PUT (mem one_block) 0x1014 9) 0x101C (- 24))
                          0x101C 0x100C 16) 0x1004 0x10,
               heap_start = 0x1004, heap_end = 0x101C, mem_brk = 0x101C, mem_max_addr = 0x2000\<rparr>"

section \<open>Bytes and header words\<close>

lemma bytes_join:
  "(ucast (byte_of v 0) :: size_t) OR push_bit 8 (ucast (byte_of v 1))
     OR push_bit 16 (ucast (byte_of v 2)) OR push_bit 24 (ucast (byte_of v 3))
     OR push_bit 32 (ucast (byte_of v 4)) OR push_bit 40 (ucast (byte_of v 5))
     OR push_bit 48 (ucast (byte_of v 6)) OR push_bit 56 (ucast (byte_of v 7)) = v"
  (is "?lhs = v")
proof (rule bit_eqI)
  fix n :: nat
  assume "possible_bit TYPE(size_t) n"
  then have "n < 64"
    by (simp add: possible_bit_word)
  then consider "n < 8" | "8 \<le> n \<and> n < 16" | "16 \<le> n \<and> n < 24" | "24 \<le> n \<and> n < 32"
    | "32 \<le> n \<and> n < 40" | "40 \<le> n \<and> n < 48" | "48 \<le> n \<and> n < 56" | "56 \<le> n \<and> n < 64"
    by linarith
  then show "bit ?lhs n = bit v n"
    by cases (auto simp add: byte_of_def bit_simps)
qed

lemma GET_PUT_same: "GET (PUT m p v) p = v"
  using bytes_join [of v] by (simp add: GET_def PUT_def)

lemma PUT_other_byte: "8 \<le> unat (a - p) \<Longrightarrow> PUT m p v a = m a"
  by (simp add: PUT_def)

lemma unat_offset:
  fixes d :: addr
  assumes "8 \<le> unat d" "unat d \<le> 2 ^ 64 - 8" "i < 8"
  shows "8 \<le> unat (d + of_nat i)"
proof -
  have "unat (d + of_nat i) = unat d + i"
    using assms by (simp add: unat_word_ariths unat_of_nat)
  then show ?thesis using assms by simp
qed

lemma GET_eqI:
  assumes "\<And>i. i < 8 \<Longrightarrow> m (p + of_nat i) = m' (p + of_nat i)"
  shows "GET m p = GET m' p"
  using assms [of 0] assms [of 1] assms [of 2] assms [of 3] assms [of 4] assms [of 5]
    assms [of 6] assms [of 7]
  by (simp add: GET_def)

text \<open>A write leaves every word alone that lies at least eight bytes away on both sides.\<close>

lemma GET_PUT_other:
  assumes "8 \<le> unat (q - p)" "unat (q - p) \<le> 2 ^ 64 - 8"
  shows "GET (PUT m p v) q = GET m q"
proof (rule GET_eqI)
  fix i :: nat
  assume "i < 8"
  then have "8 \<le> unat ((q - p) + of_nat i)"
    using assms by (intro unat_offset)
  then have "8 \<le> unat (q + of_nat i - p)"
    by (simp add: algebra_simps)
  then show "PUT m p v (q + of_nat i) = m (q + of_nat i)"
    by (rule PUT_other_byte)
qed

lemma seven_mask: "(7 :: size_t) = mask 3"
  by (simp add: mask_eq_exp_minus_1)

lemma low3_dvd: "(w AND 7 = 0) \<longleftrightarrow> 8 dvd unat (w :: size_t)"
  using and_mask_dvd_nat [of 3 w] by (simp add: seven_mask)

lemma low3_bit:
  fixes w :: size_t
  assumes "8 dvd unat w" "n < 3"
  shows "\<not> bit w n"
proof -
  have "w AND mask 3 = 0"
    using assms(1) by (simp add: low3_dvd [symmetric] seven_mask)
  then have "\<not> bit (w AND mask 3) n"
    by simp
  then show ?thesis
    using assms(2) by (simp add: bit_simps)
qed

lemma hdr_size_dvd: "8 dvd unat (hdr_size w)"
  unfolding low3_dvd [symmetric] hdr_size_def seven_mask
  by (rule bit_eqI) (simp add: bit_simps)

lemma flag_bit: "a = 0 \<or> a = 1 \<Longrightarrow> bit (a :: size_t) n \<Longrightarrow> n = 0"
  by (auto simp: bit_simps)

lemma hdr_size_PACK:
  assumes "8 dvd unat s" "a = 0 \<or> a = 1"
  shows "hdr_size (PACK s a) = s"
  unfolding hdr_size_def PACK_def seven_mask
proof (rule bit_eqI)
  fix n
  show "bit ((s OR a) AND NOT (mask 3)) n = bit s n"
    using low3_bit [OF assms(1), of n] flag_bit [OF assms(2), of n]
    by (auto simp: bit_simps dest: bit_imp_le_length)
qed

lemma hdr_alloc_PACK:
  assumes "8 dvd unat s" "a = 0 \<or> a = 1"
  shows "hdr_alloc (PACK s a) = a"
  unfolding hdr_alloc_def PACK_def
proof (rule bit_eqI)
  fix n
  show "bit ((s OR a) AND 1) n = bit a n"
    using low3_bit [OF assms(1), of n] flag_bit [OF assms(2), of n]
    by (auto simp: bit_simps)
qed

lemma hdr_alloc_cases: "hdr_alloc w = 0 \<or> hdr_alloc w = 1"
  unfolding hdr_alloc_def by (metis and_one_eq mod2_eq_if)

lemma hdr_size_le: "hdr_size w \<le> w"
  unfolding hdr_size_def by (rule word_and_le2)

lemma GET_SIZE_dvd: "8 dvd unat (GET_SIZE m p)"
  by (simp add: GET_SIZE_def hdr_size_dvd)

lemma GET_SIZE_PUT: "8 dvd unat s \<Longrightarrow> a = 0 \<or> a = 1 \<Longrightarrow> GET_SIZE (PUT m p (PACK s a)) p = s"
  by (simp add: GET_SIZE_def GET_PUT_same hdr_size_PACK)

lemma GET_ALLOC_PUT: "8 dvd unat s \<Longrightarrow> a = 0 \<or> a = 1 \<Longrightarrow> GET_ALLOC (PUT m p (PACK s a)) p = a"
  by (simp add: GET_ALLOC_def GET_PUT_same hdr_alloc_PACK)

section \<open>Header packing\<close>

text \<open>
  C9. Packing and decoding round-trip: for every size \<open>s\<close> that is a multiple of 8 and
  every flag \<open>a\<close> in \<open>{0, 1}\<close>, the size and the flag decoded from \<open>PACK s a\<close> are \<open>s\<close>
  and \<open>a\<close>, both on the word itself and after the word has gone through memory with
  \<open>PUT\<close> and \<open>GET_SIZE\<close>/\<open>GET_ALLOC\<close>; and the size decoded from any header word
  whatsoever is a multiple of 8.
\<close>

theorem PACK_roundtrip:
  assumes "8 dvd unat s" and "a = 0 \<or> a = 1"
  shows "hdr_size (PACK s a) = s \<and> hdr_alloc (PACK s a) = a
    \<and> GET_SIZE (PUT m p (PACK s a)) p = s \<and> GET_ALLOC (PUT m p (PACK s a)) p = a
    \<and> 8 dvd unat (hdr_size w) \<and> 8 dvd unat (GET_SIZE m' q)"
  using assms
  by (simp add: hdr_size_PACK hdr_alloc_PACK GET_SIZE_PUT GET_ALLOC_PUT hdr_size_dvd GET_SIZE_dvd)

theorem PACK_roundtrip_witness:
  "8 dvd unat (24 :: size_t)
   \<and> hdr_size (PACK 24 1) = 24 \<and> hdr_alloc (PACK 24 1) = 1
   \<and> GET_SIZE (PUT (\<lambda>_. 0) 4096 (PACK 24 1)) 4096 = 24
   \<and> GET_ALLOC (PUT (\<lambda>_. 0) 4096 (PACK 24 1)) 4096 = 1
   \<and> 8 dvd unat (hdr_size 29) \<and> 8 dvd unat (GET_SIZE (\<lambda>_. 255) 4096)"
proof -
  have h: "8 dvd unat (24 :: size_t)"
    by simp
  show ?thesis
    using h PACK_roundtrip [OF h, of 1 "\<lambda>_. 0" 4096 29 "\<lambda>_. 255" 4096] by simp
qed

section \<open>Running the session\<close>

lemma PUT_zero: "PUT (\<lambda>_. 0) p 0 = (\<lambda>_. 0)"
  by (auto simp: PUT_def byte_of_def)

lemma GET_zero: "GET (\<lambda>_. 0) p = 0"
  by (simp add: GET_def)

lemmas run_simps =
  mm_malloc_def mm_realloc_def mm_free_def adjusted_size_def find_fit_def find_fit_loop.simps
  extend_heap_def place_def coalesce_def mem_sbrk_def WSIZE_def DSIZE_def OVERHEAD_def NULL_def
  GET_PLD_PTR_def HDRP_def GET_SIZE_def GET_ALLOC_def hdr_size_def hdr_alloc_def PACK_def
  NEXT_BLKP_def GET_PUT_same GET_PUT_other GET_zero

lemmas session_defs =
  empty_heap_def one_block_def two_blocks_def three_blocks_def freed_first_def
  freed_first_second_def freed_second_def freed_second_first_def empty_heap_full_def
  one_block_full_def

lemma run_init: "mm_init boot = (empty_heap, 0)"
  by (simp add: mm_init_def boot_def empty_heap_def mem_sbrk_def WSIZE_def NULL_def PUT_zero)

lemma run_malloc1: "mm_malloc empty_heap 1 = Some (Inr (one_block, 0x100C))"
  by (simp add: session_defs run_simps)

lemma run_malloc2: "mm_malloc one_block 1 = Some (Inr (two_blocks, 0x101C))"
  by (simp add: session_defs run_simps)

lemma run_malloc3: "mm_malloc two_blocks 1 = Some (Inr (three_blocks, 0x102C))"
  by (simp add: session_defs run_simps)

lemma run_init_full: "mm_init (boot\<lparr>mem_max_addr := 0x1004\<rparr>) = (empty_heap_full, 0)"
  by (simp add: mm_init_def boot_def session_defs mem_sbrk_def WSIZE_def NULL_def PUT_zero)

lemma run_malloc1_full:
  "mm_malloc (empty_heap\<lparr>mem_max_addr := 0x1014\<rparr>) 1 = Some (Inr (one_block_full, 0x100C))"
  by (simp add: session_defs run_simps)

lemma run_free_first: "mm_free three_blocks 0x100C = freed_first"
  by (simp add: session_defs run_simps)

lemma run_free_first_second: "mm_free freed_first 0x101C = freed_first_second"
  by (simp add: session_defs run_simps)

lemma run_free_second: "mm_free three_blocks 0x101C = freed_second"
  by (simp add: session_defs run_simps)

lemma run_free_second_first: "mm_free freed_second 0x100C = freed_second_first"
  by (simp add: session_defs run_simps)

section \<open>Word arithmetic on sizes\<close>

lemma mult8_range:
  fixes w :: size_t
  assumes "8 dvd unat w" "w \<noteq> 0"
  shows "8 \<le> unat w \<and> unat w \<le> 2 ^ 64 - 8"
proof -
  have "unat w \<noteq> 0"
    using assms(2) by (simp add: unat_eq_0)
  moreover have "unat w < 2 ^ 64"
    using unsigned_less [of w] by simp
  ultimately show ?thesis
    using assms(1) by (auto simp: dvd_def)
qed

lemma unat_neg:
  fixes w :: size_t
  assumes "w \<noteq> 0"
  shows "unat (- w) = 2 ^ 64 - unat w"
proof -
  have "unat w \<noteq> 0"
    using assms by (simp add: unat_eq_0)
  then show ?thesis
    using unat_sub_if' [of 0 w] by simp
qed

lemma dvd_sub8:
  fixes a c :: size_t
  assumes "8 dvd unat a" "8 dvd unat c" "a \<le> c"
  shows "8 dvd unat (c - a)"
  using assms by (simp add: unat_sub)

lemma dvd_add8:
  fixes a c :: size_t
  assumes "8 dvd unat a" "8 dvd unat c"
  shows "8 dvd unat (a + c)"
proof -
  have "(8::nat) dvd 2 ^ 64"
    by simp
  then have "8 dvd (unat a + unat c) mod 2 ^ 64"
    using assms by (simp only: dvd_mod_iff dvd_add)
  then show ?thesis
    by (simp add: unat_word_ariths)
qed

lemma GET_PUT_fwd:
  assumes "8 \<le> unat d" "unat d \<le> 2 ^ 64 - 8"
  shows "GET (PUT m p v) (p + d) = GET m (p + d)"
  using assms by (intro GET_PUT_other) simp_all

lemma GET_PUT_bwd:
  assumes "8 \<le> unat d" "unat d \<le> 2 ^ 64 - 8"
  shows "GET (PUT m (p + d) v) p = GET m p"
proof -
  have "d \<noteq> 0"
    using assms by auto
  then have "unat (- d) = 2 ^ 64 - unat d"
    by (rule unat_neg)
  then show ?thesis
    using assms by (intro GET_PUT_other) simp_all
qed

section \<open>The adjusted block size\<close>

lemma round_up_8: "8 dvd round_up n 8 \<and> n \<le> round_up n 8 \<and> round_up n 8 < n + 8"
  unfolding round_up_def by (simp add: dvd_def) presburger

lemma round_up_8_least: "8 dvd k \<Longrightarrow> n \<le> k \<Longrightarrow> round_up n 8 \<le> k"
  unfolding round_up_def by (simp add: dvd_def) presburger

lemma adjusted_size_unat:
  assumes "unat sz \<le> 2 ^ 64 - 16"
  shows "unat (adjusted_size sz) = (if unat sz \<le> 8 then 16 else 8 + round_up (unat sz) 8)"
proof (cases "sz \<le> 8")
  case True
  then show ?thesis
    by (simp add: adjusted_size_def DSIZE_def OVERHEAD_def word_le_nat_alt)
next
  case False
  have a: "unat (sz + 7) = unat sz + 7"
    using assms by (simp add: unat_word_ariths)
  have b: "unat ((sz + 7) div 8) = (unat sz + 7) div 8"
    by (simp add: unat_div a)
  have c: "unat ((sz + 7) div 8 * 8) = (unat sz + 7) div 8 * 8"
    using assms by (simp add: unat_word_ariths b)
  have d: "(unat sz + 7) div 8 * 8 \<le> 2 ^ 64 - 16"
    using assms by simp
  have "unat (8 + (sz + 7) div 8 * 8) = 8 + (unat sz + 7) div 8 * 8"
    using d by (simp add: unat_word_ariths c)
  with False show ?thesis
    by (simp add: adjusted_size_def DSIZE_def OVERHEAD_def word_le_nat_alt round_up_def)
qed

text \<open>Whatever the request, wrapped or not, the adjusted size is a multiple of 8.\<close>

lemma adjusted_size_dvd: "8 dvd unat (adjusted_size sz)"
proof -
  have e: "8 dvd unat (8 :: size_t)"
    by simp
  have "8 dvd unat (x * 8)" for x :: size_t
  proof -
    have "(8::nat) dvd 2 ^ 64"
      by simp
    then have "8 dvd (unat x * 8) mod 2 ^ 64"
      by (simp only: dvd_mod_iff dvd_triv_right)
    then show ?thesis
      by (simp add: unat_word_ariths)
  qed
  then have "8 dvd unat (8 + x * 8)" for x :: size_t
    using e by (intro dvd_add8)
  then show ?thesis
    by (simp add: adjusted_size_def DSIZE_def OVERHEAD_def)
qed

text \<open>
  Where the sum does not wrap around, that is for every requested size up to
  \<open>2 ^ 64 - 16\<close>, the adjusted block size computed by \<^verbatim>\<open>mm_malloc\<close> is the smallest
  multiple of 8 that is at least the requested size plus 8 and at least 16: it is 16
  when the request is at most 8 bytes and \<open>8 + round_up(requested_size, 8)\<close> otherwise.
\<close>

theorem adjusted_size_spec:
  assumes "unat sz \<le> 2 ^ 64 - 16"
  shows "8 dvd unat (adjusted_size sz)
    \<and> unat sz + 8 \<le> unat (adjusted_size sz)
    \<and> 16 \<le> unat (adjusted_size sz)
    \<and> (\<forall>k. 8 dvd k \<and> unat sz + 8 \<le> k \<and> 16 \<le> k \<longrightarrow> unat (adjusted_size sz) \<le> k)
    \<and> unat (adjusted_size sz) = (if sz \<le> 8 then 16 else 8 + round_up (unat sz) 8)"
proof (cases "sz \<le> 8")
  case True
  then show ?thesis
    by (simp add: adjusted_size_def DSIZE_def OVERHEAD_def word_le_nat_alt)
next
  case False
  then have gt: "8 < unat sz"
    by (simp add: word_le_nat_alt)
  have eq: "unat (adjusted_size sz) = 8 + round_up (unat sz) 8"
    using adjusted_size_unat [OF assms] gt by simp
  have least: "unat (adjusted_size sz) \<le> k" if "8 dvd k" "unat sz + 8 \<le> k" for k
  proof -
    have "8 dvd (k - 8)" "unat sz \<le> k - 8"
      using that by (auto simp: dvd_def) presburger
    then have "round_up (unat sz) 8 \<le> k - 8"
      by (rule round_up_8_least)
    then show ?thesis
      using eq that by simp
  qed
  show ?thesis
    using False gt eq round_up_8 [of "unat sz"] least by auto
qed

theorem adjusted_size_spec_witness:
  "unat (13 :: size_t) \<le> 2 ^ 64 - 16
   \<and> 8 dvd unat (adjusted_size 13) \<and> unat (13 :: size_t) + 8 \<le> unat (adjusted_size 13)
   \<and> unat (adjusted_size 13) = 8 + round_up 13 8 \<and> adjusted_size 13 = 24"
proof -
  have h: "unat (13 :: size_t) \<le> 2 ^ 64 - 16"
    by simp
  have "adjusted_size 13 = 24"
    by (simp add: adjusted_size_def DSIZE_def OVERHEAD_def)
  then show ?thesis
    using h adjusted_size_spec [OF h] by simp
qed

text \<open>
  C7. The adjusted block size is meant to be, for every requested size, the smallest
  multiple of 8 that is at least the requested size plus 8 and at least 16, so that the
  block holds "at least size bytes of payload", as the comment on \<^verbatim>\<open>mm_malloc\<close> says. The
  code departs from this near the top of \<^verbatim>\<open>size_t\<close>, where the unchecked sum of line 109
  wraps around: for a request of \<open>2 ^ 64 - 1\<close> bytes the adjusted size is 8, below the
  minimum block size and below the request, and \<^verbatim>\<open>mm_malloc\<close> on the one-block heap hands
  out a block of size 8 whose payload pointer is \<^verbatim>\<open>heap_end\<close>: a block with no payload.
\<close>

theorem adjusted_size_wraps:
  "adjusted_size 0xFFFFFFFFFFFFFFFF = 8
   \<and> unat (adjusted_size 0xFFFFFFFFFFFFFFFF) < 16
   \<and> unat (adjusted_size 0xFFFFFFFFFFFFFFFF) < unat (0xFFFFFFFFFFFFFFFF :: size_t) + 8
   \<and> mm_malloc one_block 0xFFFFFFFFFFFFFFFF = Some (Inr (tiny_block, 0x101C))
   \<and> GET_SIZE (mem tiny_block) (HDRP 0x101C) = 8
   \<and> GET_ALLOC (mem tiny_block) (HDRP 0x101C) = 1
   \<and> heap_end tiny_block = 0x101C"
  by (simp add: tiny_block_def session_defs run_simps)

section \<open>Placement\<close>

lemma place_bounds [simp]:
  "heap_start (place s bp asize) = heap_start s" "heap_end (place s bp asize) = heap_end s"
  "mem_brk (place s bp asize) = mem_brk s" "mem_max_addr (place s bp asize) = mem_max_addr s"
  by (simp_all add: place_def Let_def)

lemma place_mem_split:
  assumes "8 dvd unat asize" "16 \<le> GET_SIZE (mem s) bp - asize"
  shows "mem (place s bp asize)
    = PUT (PUT (mem s) bp (PACK asize 1)) (bp + asize) (PACK (GET_SIZE (mem s) bp - asize) 0)"
proof -
  have "NEXT_BLKP (PUT (mem s) bp (PACK asize 1)) bp = bp + asize"
    by (simp add: NEXT_BLKP_def GET_SIZE_PUT assms(1))
  then show ?thesis
    using assms(2) by (simp add: place_def Let_def)
qed

lemma place_mem_whole:
  assumes "\<not> 16 \<le> GET_SIZE (mem s) bp - asize"
  shows "mem (place s bp asize) = PUT (mem s) bp (PACK (GET_SIZE (mem s) bp) 1)"
  using assms by (simp add: place_def Let_def)

text \<open>
  C2. Let \<open>asize\<close> be an adjusted size (a non-zero multiple of 8) and let the block at
  \<open>bp\<close>, of size \<open>csize\<close>, be a fit for it (\<open>asize \<le> csize\<close>). If \<open>csize - asize \<ge> 16\<close>,
  \<^verbatim>\<open>place\<close> leaves an allocated block of size exactly \<open>asize\<close> at \<open>bp\<close>, followed at once
  (at \<open>bp + asize\<close>) by a free block of size \<open>csize - asize\<close>, and writes nothing but these
  two headers; otherwise it marks the block allocated, keeps its size \<open>csize\<close> and writes
  nothing but this header. The heap bounds stay as they are.
\<close>

theorem place_spec:
  assumes "8 dvd unat asize" and "asize \<noteq> 0" and "asize \<le> GET_SIZE (mem s) bp"
  shows "(if 16 \<le> GET_SIZE (mem s) bp - asize
          then GET_SIZE (mem (place s bp asize)) bp = asize
             \<and> GET_ALLOC (mem (place s bp asize)) bp = 1
             \<and> NEXT_BLKP (mem (place s bp asize)) bp = bp + asize
             \<and> GET_SIZE (mem (place s bp asize)) (bp + asize) = GET_SIZE (mem s) bp - asize
             \<and> GET_ALLOC (mem (place s bp asize)) (bp + asize) = 0
             \<and> mem (place s bp asize)
                = PUT (PUT (mem s) bp (PACK asize 1)) (bp + asize)
                    (PACK (GET_SIZE (mem s) bp - asize) 0)
          else GET_SIZE (mem (place s bp asize)) bp = GET_SIZE (mem s) bp
             \<and> GET_ALLOC (mem (place s bp asize)) bp = 1
             \<and> mem (place s bp asize) = PUT (mem s) bp (PACK (GET_SIZE (mem s) bp) 1))
       \<and> heap_start (place s bp asize) = heap_start s
       \<and> heap_end (place s bp asize) = heap_end s"
proof -
  let ?c = "GET_SIZE (mem s) bp"
  have r: "8 \<le> unat asize" "unat asize \<le> 2 ^ 64 - 8"
    using mult8_range [OF assms(1,2)] by simp_all
  have c8: "8 dvd unat ?c"
    by (rule GET_SIZE_dvd)
  have t8: "8 dvd unat (?c - asize)"
    using assms(1) c8 assms(3) by (rule dvd_sub8)
  have head: "GET (PUT (PUT (mem s) bp (PACK asize 1)) (bp + asize) v) bp = PACK asize 1" for v
    using r by (simp add: GET_PUT_bwd GET_PUT_same)
  show ?thesis
  proof (cases "16 \<le> ?c - asize")
    case True
    show ?thesis
      using True assms(1) t8
      by (simp add: place_mem_split GET_SIZE_def GET_ALLOC_def NEXT_BLKP_def head GET_PUT_same
          hdr_size_PACK hdr_alloc_PACK)
  next
    case False
    show ?thesis
      using False c8 by (simp add: place_mem_whole GET_SIZE_PUT GET_ALLOC_PUT)
  qed
qed

theorem place_spec_witness:
  "8 dvd unat (16 :: size_t) \<and> (16 :: size_t) \<noteq> 0
   \<and> GET_SIZE (mem freed_second_first) 0x1004 = 32
   \<and> GET_SIZE (mem (place freed_second_first 0x1004 16)) 0x1004 = 16
   \<and> GET_ALLOC (mem (place freed_second_first 0x1004 16)) 0x1004 = 1
   \<and> GET_SIZE (mem (place freed_second_first 0x1004 16)) 0x1014 = 16
   \<and> GET_ALLOC (mem (place freed_second_first 0x1004 16)) 0x1014 = 0
   \<and> GET_SIZE (mem freed_first) 0x1004 = 16
   \<and> GET_SIZE (mem (place freed_first 0x1004 16)) 0x1004 = 16
   \<and> GET_ALLOC (mem (place freed_first 0x1004 16)) 0x1004 = 1"
proof -
  have a: "8 dvd unat (16 :: size_t)" and b: "(16 :: size_t) \<noteq> 0"
    by simp_all
  have c: "GET_SIZE (mem freed_second_first) 0x1004 = 32"
    and d: "GET_SIZE (mem freed_first) 0x1004 = 16"
    by (simp_all add: session_defs run_simps)
  have c': "(16 :: size_t) \<le> GET_SIZE (mem freed_second_first) 0x1004"
    and d': "(16 :: size_t) \<le> GET_SIZE (mem freed_first) 0x1004"
    by (simp_all add: c d)
  show ?thesis
    using a b c d place_spec [OF a b c'] place_spec [OF a b d']
    by (simp add: session_defs run_simps)
qed

section \<open>Freeing\<close>

lemma PACK_zero: "PACK s 0 = s"
  by (simp add: PACK_def)

lemma coalesce_bounds [simp]:
  "heap_start (coalesce s bp) = heap_start s" "heap_end (coalesce s bp) = heap_end s"
  "mem_brk (coalesce s bp) = mem_brk s" "mem_max_addr (coalesce s bp) = mem_max_addr s"
  by (simp_all add: coalesce_def Let_def)

lemma mm_free_bounds [simp]:
  "heap_start (mm_free s p) = heap_start s" "heap_end (mm_free s p) = heap_end s"
  "mem_brk (mm_free s p) = mem_brk s" "mem_max_addr (mm_free s p) = mem_max_addr s"
  by (simp_all add: mm_free_def Let_def)

text \<open>The memory after \<^verbatim>\<open>mm_free\<close>, for a block of non-zero size.\<close>

lemma mm_free_mem:
  assumes "GET_SIZE (mem s) (HDRP p) \<noteq> 0"
  shows "mem (mm_free s p) =
    (if NEXT_BLKP (mem s) (HDRP p) < heap_end s
        \<and> GET_ALLOC (mem s) (NEXT_BLKP (mem s) (HDRP p)) = 0
     then PUT (PUT (mem s) (HDRP p) (PACK (GET_SIZE (mem s) (HDRP p)) 0)) (HDRP p)
            (PACK (GET_SIZE (mem s) (HDRP p) + GET_SIZE (mem s) (NEXT_BLKP (mem s) (HDRP p))) 0)
     else PUT (mem s) (HDRP p) (PACK (GET_SIZE (mem s) (HDRP p)) 0))"
proof -
  let ?b = "HDRP p"
  let ?sz = "GET_SIZE (mem s) ?b"
  let ?m1 = "PUT (mem s) ?b (PACK ?sz 0)"
  let ?n = "?b + ?sz"
  have sz8: "8 dvd unat ?sz"
    by (rule GET_SIZE_dvd)
  have r: "8 \<le> unat ?sz" "unat ?sz \<le> 2 ^ 64 - 8"
    using mult8_range [OF sz8 assms] by simp_all
  have size1: "GET_SIZE ?m1 ?b = ?sz" and alloc1: "GET_ALLOC ?m1 ?b = 0"
    using sz8 by (simp_all add: GET_SIZE_PUT GET_ALLOC_PUT)
  have "GET ?m1 ?n = GET (mem s) ?n"
    using r by (rule GET_PUT_fwd)
  then have next1: "GET_SIZE ?m1 ?n = GET_SIZE (mem s) ?n" "GET_ALLOC ?m1 ?n = GET_ALLOC (mem s) ?n"
    by (simp_all add: GET_SIZE_def GET_ALLOC_def)
  show ?thesis
    by (auto simp add: mm_free_def coalesce_def Let_def NEXT_BLKP_def size1 alloc1 next1)
qed

text \<open>
  C3. Let \<open>p\<close> be a payload pointer whose block (the header eight bytes before \<open>p\<close>) has
  a non-zero size, as every block handed out by \<^verbatim>\<open>mm_malloc\<close> has. \<^verbatim>\<open>mm_free\<close> clears the
  allocated flag of that block. If the block that follows it lies before \<^verbatim>\<open>heap_end\<close>
  and is free, the header is rewritten so that the block's size is the sum of the two
  sizes; if the successor is allocated or at or after \<^verbatim>\<open>heap_end\<close>, the size is unchanged.
  Only the eight header bytes change, and the heap bounds stay as they are.
\<close>

theorem mm_free_spec:
  assumes "GET_SIZE (mem s) (HDRP p) \<noteq> 0"
  shows "GET_ALLOC (mem (mm_free s p)) (HDRP p) = 0
    \<and> GET_SIZE (mem (mm_free s p)) (HDRP p) =
        (if NEXT_BLKP (mem s) (HDRP p) < heap_end s
            \<and> GET_ALLOC (mem s) (NEXT_BLKP (mem s) (HDRP p)) = 0
         then GET_SIZE (mem s) (HDRP p) + GET_SIZE (mem s) (NEXT_BLKP (mem s) (HDRP p))
         else GET_SIZE (mem s) (HDRP p))
    \<and> (\<forall>a. 8 \<le> unat (a - HDRP p) \<longrightarrow> mem (mm_free s p) a = mem s a)
    \<and> heap_start (mm_free s p) = heap_start s \<and> heap_end (mm_free s p) = heap_end s"
proof -
  have sum8: "8 dvd unat (GET_SIZE (mem s) (HDRP p) + GET_SIZE (mem s) q)" for q
    using GET_SIZE_dvd GET_SIZE_dvd by (rule dvd_add8)
  show ?thesis
    using sum8 GET_SIZE_dvd [of "mem s" "HDRP p"]
    by (simp add: mm_free_mem [OF assms] GET_SIZE_PUT GET_ALLOC_PUT PUT_other_byte)
qed

theorem mm_free_spec_witness:
  "GET_SIZE (mem freed_second) (HDRP 0x100C) \<noteq> 0
   \<and> NEXT_BLKP (mem freed_second) (HDRP 0x100C) = 0x1014
   \<and> GET_ALLOC (mem freed_second) 0x1014 = 0
   \<and> GET_ALLOC (mem (mm_free freed_second 0x100C)) (HDRP 0x100C) = 0
   \<and> GET_SIZE (mem (mm_free freed_second 0x100C)) (HDRP 0x100C) = 32
   \<and> GET_SIZE (mem three_blocks) (HDRP 0x100C) \<noteq> 0
   \<and> GET_ALLOC (mem three_blocks) 0x1014 = 1
   \<and> GET_SIZE (mem (mm_free three_blocks 0x100C)) (HDRP 0x100C) = 16"
proof -
  have a: "GET_SIZE (mem freed_second) (HDRP 0x100C) \<noteq> 0"
    and b: "GET_SIZE (mem three_blocks) (HDRP 0x100C) \<noteq> 0"
    by (simp_all add: session_defs run_simps)
  have c: "NEXT_BLKP (mem freed_second) (HDRP 0x100C) = 0x1014"
    "GET_ALLOC (mem freed_second) 0x1014 = 0"
    "GET_SIZE (mem freed_second) (HDRP 0x100C) = 16"
    "GET_SIZE (mem freed_second) 0x1014 = 16"
    "heap_end freed_second = 0x1034"
    by (simp_all add: session_defs run_simps)
  have d: "NEXT_BLKP (mem three_blocks) (HDRP 0x100C) = 0x1014"
    "GET_ALLOC (mem three_blocks) 0x1014 = 1"
    "GET_SIZE (mem three_blocks) (HDRP 0x100C) = 16"
    by (simp_all add: session_defs run_simps)
  show ?thesis
    using a b mm_free_spec [OF a] mm_free_spec [OF b] by (simp add: c d)
qed

section \<open>Growing the heap\<close>

lemma extend_heap_mem: "mem (fst (extend_heap s words)) = mem s"
  by (simp add: extend_heap_def mem_sbrk_def Let_def)

text \<open>For a multiple of 8, the word count \<open>a / 4\<close> is even and gives back \<open>a\<close> bytes.\<close>

lemma words_of_mult8:
  fixes a :: size_t
  assumes "8 dvd unat a"
  shows "(a div 4) mod 2 = 0" and "(a div 4) * 4 = a"
proof -
  obtain k where k: "unat a = 8 * k"
    using assms by (auto simp: dvd_def)
  have lt: "unat a < 2 ^ 64"
    using unsigned_less [of a] by simp
  have d: "unat (a div 4) = 2 * k"
    using k by (simp add: unat_div)
  have "unat ((a div 4) mod 2) = 0"
    by (simp add: unat_mod d)
  then show "(a div 4) mod 2 = 0"
    by (simp add: unat_eq_0)
  have "unat ((a div 4) * 4) = unat a"
    using lt k by (simp add: unat_word_ariths d)
  then show "(a div 4) * 4 = a"
    by (rule word_unat_eq_iff [THEN iffD2])
qed

lemma extend_heap_adjusted:
  "extend_heap s (adjusted_size sz div WSIZE) =
     (if snd (mem_sbrk s (adjusted_size sz)) = NULL then (fst (mem_sbrk s (adjusted_size sz)), NULL)
      else (fst (mem_sbrk s (adjusted_size sz))
              \<lparr>heap_end := heap_end s + adjusted_size sz\<rparr>, mem_brk s))"
  using words_of_mult8 [OF adjusted_size_dvd, of sz]
  by (simp add: extend_heap_def WSIZE_def Let_def mem_sbrk_def split_def)

section \<open>Failure of the growth primitive\<close>

text \<open>
  C6 (as amended). Whenever the first-fit search finds no fit and the growth primitive
  fails on the bytes then requested, \<^verbatim>\<open>mm_malloc\<close> ends the process with \<^verbatim>\<open>exit(1)\<close>, and so
  does \<^verbatim>\<open>mm_realloc\<close>, whatever pointer it was given: nothing is returned to the caller and
  there is no second attempt.
\<close>

theorem growth_failure_exits:
  assumes "find_fit s (adjusted_size sz) = Some NULL"
    and "snd (mem_sbrk s (adjusted_size sz)) = NULL"
  shows "mm_malloc s sz = Some (Inl (Exit 1)) \<and> mm_realloc s p sz = Some (Inl (Exit 1))"
proof -
  have "mm_malloc s sz = Some (Inl (Exit 1))"
    using assms by (simp add: mm_malloc_def extend_heap_adjusted Let_def)
  then show ?thesis
    by (simp add: mm_realloc_def)
qed

theorem growth_failure_exits_witness:
  "find_fit one_block_full (adjusted_size 100) = Some NULL
   \<and> snd (mem_sbrk one_block_full (adjusted_size 100)) = NULL
   \<and> mm_malloc one_block_full 100 = Some (Inl (Exit 1))
   \<and> mm_realloc one_block_full 0x100C 100 = Some (Inl (Exit 1))"
proof -
  have a: "find_fit one_block_full (adjusted_size 100) = Some NULL"
    and b: "snd (mem_sbrk one_block_full (adjusted_size 100)) = NULL"
    by (simp_all add: session_defs run_simps)
  show ?thesis
    using a b growth_failure_exits [where p = "0x100C", OF a b] by simp
qed

text \<open>
  The claim as stated fails on a heap with no room left: the growth primitive fails, and
  the request does not come back to the caller with a null pointer and the heap as it
  was; the process is ended.
\<close>

theorem growth_failure_not_returned:
  "mm_init (boot\<lparr>mem_max_addr := 0x1004\<rparr>) = (empty_heap_full, 0)
   \<and> find_fit empty_heap_full (adjusted_size 1) = Some NULL
   \<and> snd (mem_sbrk empty_heap_full (adjusted_size 1)) = NULL
   \<and> mm_malloc empty_heap_full 1 \<noteq> Some (Inr (empty_heap_full, NULL))
   \<and> mm_malloc empty_heap_full 1 = Some (Inl (Exit 1))
   \<and> mm_realloc one_block_full 0x100C 100 \<noteq> Some (Inr (one_block_full, NULL))
   \<and> mm_realloc one_block_full 0x100C 100 = Some (Inl (Exit 1))"
  by (simp add: mm_init_def boot_def PUT_zero session_defs run_simps)

section \<open>The block at the old end of the heap\<close>

text \<open>
  C5 (where the code departs from it). On the empty heap over zeroed memory,
  \<^verbatim>\<open>mm_malloc(1)\<close> finds no fit and calls \<^verbatim>\<open>extend_heap\<close> for 16 bytes. \<^verbatim>\<open>extend_heap\<close> moves
  \<^verbatim>\<open>heap_end\<close> and returns the old end, but writes no header there: the word at the old
  end is still 0, not size 16 with the free flag. \<^verbatim>\<open>place\<close> then reads size 0, computes
  \<open>0 - 16\<close>, which wraps to \<open>2 ^ 64 - 16\<close>, takes the splitting branch and writes the header
  of a "free block" of that size at the new \<^verbatim>\<open>heap_end\<close>, outside the heap.
\<close>

theorem extend_heap_writes_no_header:
  "find_fit empty_heap (adjusted_size 1) = Some NULL
   \<and> adjusted_size 1 = 16
   \<and> extend_heap empty_heap (adjusted_size 1 div WSIZE)
       = (empty_heap\<lparr>heap_end := 0x1014, mem_brk := 0x1014\<rparr>, 0x1004)
   \<and> GET (mem (fst (extend_heap empty_heap (adjusted_size 1 div WSIZE)))) 0x1004 = 0
   \<and> GET (mem (fst (extend_heap empty_heap (adjusted_size 1 div WSIZE)))) 0x1004 \<noteq> PACK 16 0
   \<and> mm_malloc empty_heap 1 = Some (Inr (one_block, 0x100C))
   \<and> heap_end one_block = 0x1014
   \<and> GET (mem one_block) 0x1014 = PACK (0 - 16) 0"
  by (simp add: session_defs run_simps)

section \<open>Well-formed heaps\<close>

lemma chain_Cons_facts:
  assumes "chain m a (b # bs) e"
  shows "b = a" and "a \<noteq> e" and "unat (NEXT_BLKP m a) = unat a + unat (GET_SIZE m a)"
    and "unat a < unat (NEXT_BLKP m a)" and "unat (NEXT_BLKP m a) \<le> unat e"
    and "chain m (NEXT_BLKP m a) bs e"
proof -
  have le: "unat a + unat (GET_SIZE m a) \<le> unat e" and sz: "16 \<le> unat (GET_SIZE m a)"
    using assms by simp_all
  have "unat e < 2 ^ 64"
    using unsigned_less [of e] by simp
  then show n: "unat (NEXT_BLKP m a) = unat a + unat (GET_SIZE m a)"
    using le by (simp add: NEXT_BLKP_def unat_word_ariths)
  show "b = a" and "chain m (NEXT_BLKP m a) bs e"
    using assms by simp_all
  show "a \<noteq> e"
    using le sz by auto
  show "unat a < unat (NEXT_BLKP m a)" and "unat (NEXT_BLKP m a) \<le> unat e"
    using n le sz by simp_all
qed

lemma chain_le: "chain m a bs e \<Longrightarrow> unat a \<le> unat e"
proof (induction bs arbitrary: a)
  case Nil
  then show ?case by simp
next
  case (Cons b bs)
  from chain_Cons_facts(4,6) [OF Cons.prems] Cons.IH [of "NEXT_BLKP m a"]
  show ?case by simp
qed

text \<open>Every block of a chain lies inside it, with all of its bytes.\<close>

lemma chain_block:
  "chain m a bs e \<Longrightarrow> b \<in> set bs \<Longrightarrow>
     unat a \<le> unat b \<and> 16 \<le> unat (GET_SIZE m b) \<and> unat b + unat (GET_SIZE m b) \<le> unat e"
proof (induction bs arbitrary: a)
  case Nil
  then show ?case by simp
next
  case (Cons c bs)
  note f = chain_Cons_facts [OF Cons.prems(1)]
  show ?case
  proof (cases "b = c")
    case True
    then show ?thesis
      using Cons.prems(1) by simp
  next
    case False
    then have "b \<in> set bs"
      using Cons.prems(2) by simp
    from Cons.IH [OF f(6) this] f(4) show ?thesis
      by simp
  qed
qed

lemma chain_sorted: "chain m a bs e \<Longrightarrow> sorted_wrt (<) bs"
proof (induction bs arbitrary: a)
  case Nil
  then show ?case by simp
next
  case (Cons c bs)
  note f = chain_Cons_facts [OF Cons.prems]
  have "c < b" if "b \<in> set bs" for b
    using chain_block [OF f(6) that] f(1,4) by (simp add: word_less_nat_alt)
  then show ?case
    using Cons.IH [OF f(6)] by simp
qed

lemma chain_funpow: "chain m a bs e \<Longrightarrow> (NEXT_BLKP m ^^ length bs) a = e"
proof (induction bs arbitrary: a)
  case Nil
  then show ?case by simp
next
  case (Cons c bs)
  from Cons.IH [OF chain_Cons_facts(6) [OF Cons.prems]] show ?case
    by (simp add: funpow_swap1)
qed

section \<open>The first-fit search\<close>

lemma find_fit_loop_chain:
  "chain m a bs e \<Longrightarrow> find_fit_loop m e asize a = Some (first_fit m asize bs)"
proof (induction bs arbitrary: a)
  case Nil
  then show ?case
    by (subst find_fit_loop.simps) (simp add: first_fit_def)
next
  case (Cons c bs)
  note f = chain_Cons_facts [OF Cons.prems]
  show ?case
  proof (cases "fits m asize a")
    case True
    then show ?thesis
      using f(1,2) by (subst find_fit_loop.simps) (simp add: first_fit_def fits_def)
  next
    case False
    then have "find_fit_loop m e asize a = find_fit_loop m e asize (NEXT_BLKP m a)"
      using f(2) by (subst find_fit_loop.simps) (auto simp: fits_def)
    also have "\<dots> = Some (first_fit m asize bs)"
      by (rule Cons.IH [OF f(6)])
    finally show ?thesis
      using False f(1) by (simp add: first_fit_def)
  qed
qed

lemma find_sorted_least:
  fixes bs :: "addr list"
  shows "sorted_wrt (<) bs \<Longrightarrow> List.find P bs = Some r \<Longrightarrow> b \<in> set bs \<Longrightarrow> P b \<Longrightarrow> r \<le> b"
  by (induction bs) (auto split: if_splits)

lemma first_fit_cases:
  "(\<exists>b\<in>set bs. fits m asize b) \<Longrightarrow>
     first_fit m asize bs \<in> set bs \<and> fits m asize (first_fit m asize bs)"
  "\<not> (\<exists>b\<in>set bs. fits m asize b) \<Longrightarrow> first_fit m asize bs = NULL"
  by (auto simp: first_fit_def find_None_iff find_Some_iff split: option.splits)

text \<open>
  C1. On a well-formed heap, whose blocks in heap order from \<^verbatim>\<open>heap_start\<close> to \<^verbatim>\<open>heap_end\<close>
  are \<open>bs\<close>, the search of \<^verbatim>\<open>find_fit\<close> for an adjusted size \<open>asize\<close> returns the first block
  of \<open>bs\<close> that is free and of size at least \<open>asize\<close>. The blocks of \<open>bs\<close> come in strictly
  increasing address order, so where several blocks fit the one returned has the lowest
  address of them; where none fits the result is \<^verbatim>\<open>NULL\<close>, no fit.
\<close>

theorem find_fit_first_fit:
  assumes "chain (mem s) (heap_start s) bs (heap_end s)"
  shows "find_fit s asize = Some (first_fit (mem s) asize bs)
    \<and> sorted_wrt (<) bs
    \<and> (if \<exists>b\<in>set bs. fits (mem s) asize b
        then first_fit (mem s) asize bs \<in> set bs
           \<and> fits (mem s) asize (first_fit (mem s) asize bs)
           \<and> (\<forall>b\<in>set bs. fits (mem s) asize b \<longrightarrow> first_fit (mem s) asize bs \<le> b)
        else first_fit (mem s) asize bs = NULL)"
proof -
  have srt: "sorted_wrt (<) bs"
    using assms by (rule chain_sorted)
  have least: "first_fit (mem s) asize bs \<le> b"
    if bin: "b \<in> set bs" and bfit: "fits (mem s) asize b" for b
  proof -
    obtain r where r: "List.find (fits (mem s) asize) bs = Some r"
      using bin bfit by (cases "List.find (fits (mem s) asize) bs") (auto simp: find_None_iff)
    then have "r \<le> b"
      using srt bin bfit by (intro find_sorted_least)
    then show ?thesis
      using r by (simp add: first_fit_def)
  qed
  show ?thesis
    using find_fit_loop_chain [OF assms] srt least first_fit_cases [of bs "mem s" asize]
    by (auto simp: find_fit_def)
qed

lemma chain_freed_first_second:
  "chain (mem freed_first_second) (heap_start freed_first_second) [0x1004, 0x1014, 0x1024]
     (heap_end freed_first_second)"
  by (simp add: session_defs run_simps)

theorem find_fit_first_fit_witness:
  "chain (mem freed_first_second) (heap_start freed_first_second) [0x1004, 0x1014, 0x1024]
     (heap_end freed_first_second)
   \<and> fits (mem freed_first_second) 16 0x1004 \<and> fits (mem freed_first_second) 16 0x1014
   \<and> find_fit freed_first_second 16 = Some 0x1004
   \<and> find_fit freed_first_second 24 = Some NULL"
proof -
  note c = chain_freed_first_second
  have a: "first_fit (mem freed_first_second) 16 [0x1004, 0x1014, 0x1024] = 0x1004"
    and b: "first_fit (mem freed_first_second) 24 [0x1004, 0x1014, 0x1024] = NULL"
    and f: "fits (mem freed_first_second) 16 0x1004" "fits (mem freed_first_second) 16 0x1014"
    by (simp_all add: first_fit_def fits_def session_defs run_simps)
  show ?thesis
    using c f find_fit_first_fit [OF c, of 16] find_fit_first_fit [OF c, of 24]
    by (simp only: a b)
qed

section \<open>Termination of the search\<close>

text \<open>
  C10. On a well-formed heap (every block between \<^verbatim>\<open>heap_start\<close> and \<^verbatim>\<open>heap_end\<close> at
  least 16 bytes long, the blocks tiling the range exactly) the scan of \<^verbatim>\<open>find_fit\<close> ends,
  and it returns either a fitting free block or no fit: where some block of the heap is
  free and large enough, the result is such a block of the heap; where none is, the
  result is \<^verbatim>\<open>NULL\<close>. Each step \<^verbatim>\<open>bp = NEXT_BLKP(bp)\<close> strictly increases the address and
  stays within the heap, and as many steps as there are blocks lead from \<^verbatim>\<open>heap_start\<close>
  to \<^verbatim>\<open>heap_end\<close>.
\<close>

theorem find_fit_terminates:
  assumes "chain (mem s) (heap_start s) bs (heap_end s)"
  shows "(\<exists>r. find_fit s asize = Some r
          \<and> (if \<exists>b\<in>set bs. fits (mem s) asize b
              then r \<in> set bs \<and> GET_ALLOC (mem s) r = 0 \<and> asize \<le> GET_SIZE (mem s) r
              else r = NULL))
    \<and> (\<forall>b\<in>set bs. unat b < unat (NEXT_BLKP (mem s) b)
          \<and> unat (NEXT_BLKP (mem s) b) \<le> unat (heap_end s))
    \<and> (NEXT_BLKP (mem s) ^^ length bs) (heap_start s) = heap_end s"
proof -
  have "if \<exists>b\<in>set bs. fits (mem s) asize b
      then first_fit (mem s) asize bs \<in> set bs
         \<and> GET_ALLOC (mem s) (first_fit (mem s) asize bs) = 0
         \<and> asize \<le> GET_SIZE (mem s) (first_fit (mem s) asize bs)
      else first_fit (mem s) asize bs = NULL"
    using first_fit_cases [of bs "mem s" asize] by (auto simp: fits_def)
  then have 1: "\<exists>r. find_fit s asize = Some r
      \<and> (if \<exists>b\<in>set bs. fits (mem s) asize b
          then r \<in> set bs \<and> GET_ALLOC (mem s) r = 0 \<and> asize \<le> GET_SIZE (mem s) r
          else r = NULL)"
    using find_fit_loop_chain [OF assms, of asize] by (simp add: find_fit_def)
  have 2: "unat b < unat (NEXT_BLKP (mem s) b) \<and> unat (NEXT_BLKP (mem s) b) \<le> unat (heap_end s)"
    if "b \<in> set bs" for b
  proof -
    have b: "16 \<le> unat (GET_SIZE (mem s) b)"
      "unat b + unat (GET_SIZE (mem s) b) \<le> unat (heap_end s)"
      using chain_block [OF assms that] by simp_all
    have "unat (heap_end s) < 2 ^ 64"
      using unsigned_less [of "heap_end s"] by simp
    then have "unat (NEXT_BLKP (mem s) b) = unat b + unat (GET_SIZE (mem s) b)"
      using b(2) by (simp add: NEXT_BLKP_def unat_word_ariths)
    then show ?thesis
      using b by simp
  qed
  show ?thesis
    using 1 2 chain_funpow [OF assms] by blast
qed

lemma chain_three_blocks:
  "chain (mem three_blocks) (heap_start three_blocks) [0x1004, 0x1014, 0x1024]
     (heap_end three_blocks)"
  by (simp add: session_defs run_simps)

lemma chain_freed_second:
  "chain (mem freed_second) (heap_start freed_second) [0x1004, 0x1014, 0x1024]
     (heap_end freed_second)"
  by (simp add: session_defs run_simps)

theorem find_fit_terminates_witness:
  "chain (mem three_blocks) (heap_start three_blocks) [0x1004, 0x1014, 0x1024]
     (heap_end three_blocks)
   \<and> find_fit three_blocks 16 = Some NULL
   \<and> (NEXT_BLKP (mem three_blocks) ^^ length [0x1004, 0x1014, 0x1024 :: addr])
        (heap_start three_blocks) = heap_end three_blocks
   \<and> chain (mem freed_second) (heap_start freed_second) [0x1004, 0x1014, 0x1024]
       (heap_end freed_second)
   \<and> fits (mem freed_second) 16 0x1014
   \<and> find_fit freed_second 16 = Some 0x1014
   \<and> GET_ALLOC (mem freed_second) 0x1014 = 0
   \<and> (16 :: size_t) \<le> GET_SIZE (mem freed_second) 0x1014"
proof -
  note c = chain_three_blocks and d = chain_freed_second
  have f: "find_fit three_blocks 16 = Some NULL" "find_fit freed_second 16 = Some 0x1014"
    and g: "fits (mem freed_second) 16 0x1014"
    by (simp_all add: fits_def session_defs run_simps)
  then have e: "\<exists>b\<in>set [0x1004, 0x1014, 0x1024]. fits (mem freed_second) 16 b"
    by simp
  from find_fit_terminates [OF c, of 16]
  have 1: "(NEXT_BLKP (mem three_blocks) ^^ length [0x1004, 0x1014, 0x1024 :: addr])
      (heap_start three_blocks) = heap_end three_blocks"
    by blast
  from find_fit_terminates [OF d, of 16] e f(2)
  have 2: "GET_ALLOC (mem freed_second) 0x1014 = 0
      \<and> (16 :: size_t) \<le> GET_SIZE (mem freed_second) 0x1014"
    by (simp only: if_True option.inject) blast
  from c d f g 1 2 show ?thesis
    by blast
qed

text \<open>
  Without well-formedness the scan need not end: at a free block of size 0 that is not
  \<^verbatim>\<open>heap_end\<close> the loop stays where it is.
\<close>

lemma find_fit_loop_Some_not_stuck:
  assumes "find_fit_loop m hend asize bp = Some r"
  shows "\<not> (bp \<noteq> hend \<and> GET m bp = 0 \<and> asize \<noteq> 0)"
proof (rule find_fit_loop.raw_induct
    [where P = "\<lambda>m hend asize bp r. \<not> (bp \<noteq> hend \<and> GET m bp = 0 \<and> asize \<noteq> 0)", OF _ assms])
  fix f :: "memory \<Rightarrow> addr \<Rightarrow> size_t \<Rightarrow> addr \<Rightarrow> addr option"
  fix m' hend' asize' bp' r'
  assume IH: "\<And>m hend asize bp y. f m hend asize bp = Some y \<Longrightarrow>
      \<not> (bp \<noteq> hend \<and> GET m bp = 0 \<and> asize \<noteq> 0)"
  assume eq: "(if bp' = hend' then Some NULL
      else if GET_ALLOC m' bp' = 0 \<and> asize' \<le> GET_SIZE m' bp' then Some bp'
      else f m' hend' asize' (NEXT_BLKP m' bp')) = Some r'"
  show "\<not> (bp' \<noteq> hend' \<and> GET m' bp' = 0 \<and> asize' \<noteq> 0)"
  proof
    assume st: "bp' \<noteq> hend' \<and> GET m' bp' = 0 \<and> asize' \<noteq> 0"
    then have "f m' hend' asize' bp' = Some r'"
      using eq by (simp add: GET_ALLOC_def GET_SIZE_def hdr_alloc_def hdr_size_def
          NEXT_BLKP_def word_le_nat_alt unat_eq_0)
    from IH [OF this] st show False
      by simp
  qed
qed

lemma find_fit_loop_stuck:
  assumes "bp \<noteq> hend" "GET m bp = 0" "asize \<noteq> 0"
  shows "find_fit_loop m hend asize bp = None"
  using assms find_fit_loop_Some_not_stuck [of m hend asize bp]
  by (cases "find_fit_loop m hend asize bp") auto

section \<open>Frames: what a header write leaves alone\<close>

lemma far_apart:
  fixes b c :: addr
  assumes "unat c + 8 \<le> unat b \<or> unat b + 8 \<le> unat c"
    and "unat b \<le> 2 ^ 64 - 8" "unat c \<le> 2 ^ 64 - 8"
  shows "8 \<le> unat (c - b) \<and> unat (c - b) \<le> 2 ^ 64 - 8"
proof -
  have "unat b < 2 ^ 64" "unat c < 2 ^ 64"
    using unsigned_less [of b] unsigned_less [of c] by simp_all
  then show ?thesis
    using assms by (auto simp: unat_sub_if')
qed

lemma GET_frame:
  assumes "\<And>a. 8 \<le> unat (a - b) \<Longrightarrow> m' a = m a"
    and "unat c + 8 \<le> unat b \<or> unat b + 8 \<le> unat c"
    and "unat b \<le> 2 ^ 64 - 8" "unat c \<le> 2 ^ 64 - 8"
  shows "GET m' c = GET m c"
proof (rule GET_eqI)
  fix i :: nat
  assume "i < 8"
  then have "8 \<le> unat ((c - b) + of_nat i)"
    using far_apart [OF assms(2,3,4)] by (intro unat_offset) simp_all
  then have "8 \<le> unat (c + of_nat i - b)"
    by (simp add: algebra_simps)
  then show "m' (c + of_nat i) = m (c + of_nat i)"
    by (rule assms(1))
qed

lemma chain_cong:
  "chain m a bs e \<Longrightarrow> (\<And>c. c \<in> set bs \<Longrightarrow> GET m' c = GET m c) \<Longrightarrow> chain m' a bs e"
proof (induction bs arbitrary: a)
  case Nil
  then show ?case by simp
next
  case (Cons b bs)
  have g: "GET m' a = GET m a"
    using Cons.prems by simp
  have "chain m' (NEXT_BLKP m a) bs e"
    using Cons.prems by (intro Cons.IH) simp_all
  then show ?case
    using Cons.prems(1) g by (simp add: NEXT_BLKP_def GET_SIZE_def)
qed

lemma chain_append:
  "chain m a (xs @ ys) e \<longleftrightarrow> (\<exists>mid. chain m a xs mid \<and> chain m mid ys e)"
proof (induction xs arbitrary: a)
  case Nil
  then show ?case by simp
next
  case (Cons x xs)
  show ?case
  proof
    assume c: "chain m a ((x # xs) @ ys) e"
    then have c': "chain m a (x # xs @ ys) e"
      by simp
    note f = chain_Cons_facts [OF c']
    from f(6) Cons.IH obtain mid where
      mid: "chain m (NEXT_BLKP m a) xs mid" "chain m mid ys e"
      by blast
    have "unat (NEXT_BLKP m a) \<le> unat mid"
      using mid(1) by (rule chain_le)
    then have "chain m a (x # xs) mid"
      using c' mid(1) f(3) by simp
    with mid(2) show "\<exists>mid. chain m a (x # xs) mid \<and> chain m mid ys e"
      by blast
  next
    assume "\<exists>mid. chain m a (x # xs) mid \<and> chain m mid ys e"
    then obtain mid where mid: "chain m a (x # xs) mid" "chain m mid ys e"
      by blast
    have "unat mid \<le> unat e"
      using mid(2) by (rule chain_le)
    moreover have "chain m (NEXT_BLKP m a) (xs @ ys) e"
      using mid Cons.IH chain_Cons_facts(6) [OF mid(1)] by blast
    ultimately show "chain m a ((x # xs) @ ys) e"
      using mid(1) by simp
  qed
qed

lemma naf_cong:
  "(\<And>c. c \<in> set bs \<Longrightarrow> GET_ALLOC m' c = GET_ALLOC m c) \<Longrightarrow>
     no_adjacent_free m' bs = no_adjacent_free m bs"
  by (induction m bs rule: no_adjacent_free.induct) simp_all

lemma naf_Cons:
  "no_adjacent_free m (a # bs) =
     ((bs = [] \<or> \<not> (GET_ALLOC m a = 0 \<and> GET_ALLOC m (hd bs) = 0)) \<and> no_adjacent_free m bs)"
  by (cases bs) simp_all

lemma naf_append:
  "no_adjacent_free m (xs @ y # ys) =
     (no_adjacent_free m xs
      \<and> (xs = [] \<or> \<not> (GET_ALLOC m (last xs) = 0 \<and> GET_ALLOC m y = 0))
      \<and> no_adjacent_free m (y # ys))"
proof (induction xs)
  case Nil
  then show ?case by simp
next
  case (Cons x xs)
  show ?case
  proof (cases xs)
    case Nil
    then show ?thesis by simp
  next
    case (Cons x' xs')
    with Cons.IH show ?thesis
      by auto
  qed
qed

section \<open>Adjacent free blocks\<close>

lemma mm_free_header:
  assumes "GET_SIZE (mem s) (HDRP p) \<noteq> 0"
  shows "GET_ALLOC (mem (mm_free s p)) (HDRP p) = 0"
    and "GET_SIZE (mem (mm_free s p)) (HDRP p) =
        (if NEXT_BLKP (mem s) (HDRP p) < heap_end s
            \<and> GET_ALLOC (mem s) (NEXT_BLKP (mem s) (HDRP p)) = 0
         then GET_SIZE (mem s) (HDRP p) + GET_SIZE (mem s) (NEXT_BLKP (mem s) (HDRP p))
         else GET_SIZE (mem s) (HDRP p))"
    and "\<And>a. 8 \<le> unat (a - HDRP p) \<Longrightarrow> mem (mm_free s p) a = mem s a"
proof -
  have sum8: "8 dvd unat (GET_SIZE (mem s) (HDRP p) + GET_SIZE (mem s) q)" for q
    using GET_SIZE_dvd GET_SIZE_dvd by (rule dvd_add8)
  note sz8 = GET_SIZE_dvd [of "mem s" "HDRP p"]
  show "GET_ALLOC (mem (mm_free s p)) (HDRP p) = 0"
    using sum8 sz8 by (simp add: mm_free_mem [OF assms] GET_ALLOC_PUT)
  show "GET_SIZE (mem (mm_free s p)) (HDRP p) =
        (if NEXT_BLKP (mem s) (HDRP p) < heap_end s
            \<and> GET_ALLOC (mem s) (NEXT_BLKP (mem s) (HDRP p)) = 0
         then GET_SIZE (mem s) (HDRP p) + GET_SIZE (mem s) (NEXT_BLKP (mem s) (HDRP p))
         else GET_SIZE (mem s) (HDRP p))"
    using sum8 sz8 by (simp add: mm_free_mem [OF assms] GET_SIZE_PUT)
  show "\<And>a. 8 \<le> unat (a - HDRP p) \<Longrightarrow> mem (mm_free s p) a = mem s a"
    by (simp add: mm_free_mem [OF assms] PUT_other_byte)
qed

text \<open>
  C4 (as amended). Take a well-formed heap in which no two neighbouring blocks are both
  free, and a block of it whose predecessor, if it has one, is allocated. After
  \<^verbatim>\<open>mm_free\<close> of that block the heap is again well formed (with the successor absorbed if
  it was free) and again no two neighbouring blocks are both free.
\<close>

theorem mm_free_keeps_no_adjacent_free:
  assumes wf: "chain (mem s) (heap_start s) (pre @ HDRP p # post) (heap_end s)"
    and inv: "no_adjacent_free (mem s) (pre @ HDRP p # post)"
    and pred: "pre = [] \<or> GET_ALLOC (mem s) (last pre) \<noteq> 0"
  shows "chain (mem (mm_free s p)) (heap_start (mm_free s p))
           (pre @ HDRP p # (if post \<noteq> [] \<and> GET_ALLOC (mem s) (hd post) = 0 then tl post else post))
           (heap_end (mm_free s p))
       \<and> no_adjacent_free (mem (mm_free s p))
           (pre @ HDRP p # (if post \<noteq> [] \<and> GET_ALLOC (mem s) (hd post) = 0 then tl post else post))"
proof -
  let ?b = "HDRP p"
  let ?m = "mem s"
  let ?m' = "mem (mm_free s p)"
  let ?sz = "GET_SIZE ?m ?b"
  let ?n = "NEXT_BLKP ?m ?b"
  let ?he = "heap_end s"
  from wf obtain mid where "chain ?m (heap_start s) pre mid" and cb: "chain ?m mid (?b # post) ?he"
    unfolding chain_append by blast
  then have cpre: "chain ?m (heap_start s) pre ?b"
    by simp
  from cb have cb: "chain ?m ?b (?b # post) ?he"
    by simp
  note f = chain_Cons_facts [OF cb]
  have sz16: "16 \<le> unat ?sz" and hb: "unat ?b + unat ?sz \<le> unat ?he"
    using cb by simp_all
  have nz: "?sz \<noteq> 0"
    using sz16 by auto
  note h = mm_free_header [OF nz]
  have he: "unat ?he < 2 ^ 64"
    using unsigned_less [of ?he] by simp
  have pre_far: "unat c + 16 \<le> unat ?b" if "c \<in> set pre" for c
    using chain_block [OF cpre that] by simp
  have post_far: "unat ?b + 16 \<le> unat c \<and> unat c + 16 \<le> unat ?he" if "c \<in> set post" for c
    using chain_block [OF f(6) that] f(3) sz16 by simp
  have GET_pre: "GET ?m' c = GET ?m c" if "c \<in> set pre" for c
    using pre_far [OF that] hb sz16 he by (intro GET_frame [OF h(3)]) (simp_all, linarith+)
  have GET_post: "GET ?m' c = GET ?m c" if "c \<in> set post" for c
    using post_far [OF that] hb sz16 he by (intro GET_frame [OF h(3)]) (simp_all, linarith+)
  have cpre': "chain ?m' (heap_start s) pre ?b"
    using cpre GET_pre by (rule chain_cong)
  from inv have naf: "no_adjacent_free ?m pre" "no_adjacent_free ?m (?b # post)"
    by (simp_all add: naf_append)
  have naf_pre': "no_adjacent_free ?m' pre"
    using naf(1) GET_pre by (simp add: naf_cong [of pre ?m' ?m] GET_ALLOC_def)
  have last': "pre = [] \<or> GET_ALLOC ?m' (last pre) \<noteq> 0"
    using pred GET_pre [of "last pre"] by (auto simp: GET_ALLOC_def)
  have tail: "chain ?m' ?b (?b # cs) ?he \<and> no_adjacent_free ?m' (?b # cs)"
    if cs: "cs = (if post \<noteq> [] \<and> GET_ALLOC ?m (hd post) = 0 then tl post else post)" for cs
  proof (cases post)
    case Nil
    then have "?n = ?he"
      using f(6) by simp
    then have "GET_SIZE ?m' ?b = ?sz"
      using h(2) by simp
    then show ?thesis
      using Nil cs cb by (simp add: NEXT_BLKP_def)
  next
    case (Cons n post')
    note g = chain_Cons_facts [OF f(6) [unfolded Cons]]
    have n: "n = ?n"
      using g(1) .
    have n_lt: "?n < ?he"
      using f(6) Cons by (auto simp: word_less_nat_alt)
    have rest: "GET ?m' c = GET ?m c" if "c \<in> set post" for c
      using that by (rule GET_post)
    show ?thesis
    proof (cases "GET_ALLOC ?m ?n = 0")
      case False
      then have sz': "GET_SIZE ?m' ?b = ?sz"
        using h(2) by simp
      have "chain ?m' ?n post ?he"
        using f(6) rest by (rule chain_cong)
      then have c': "chain ?m' ?b (?b # post) ?he"
        using sz' sz16 hb by (simp add: NEXT_BLKP_def)
      have "no_adjacent_free ?m' post"
        using naf(2) rest by (simp add: naf_Cons naf_cong [of post ?m' ?m] GET_ALLOC_def)
      moreover have "GET_ALLOC ?m' n \<noteq> 0"
        using False rest [of n] Cons n by (simp add: GET_ALLOC_def)
      ultimately have "no_adjacent_free ?m' (?b # post)"
        using Cons by (simp add: naf_Cons)
      then show ?thesis
        using c' cs False Cons n by simp
    next
      case True
      let ?nsz = "GET_SIZE ?m ?n"
      have sz': "GET_SIZE ?m' ?b = ?sz + ?nsz"
        using h(2) True n_lt by simp
      have nb: "16 \<le> unat ?nsz" "unat ?n + unat ?nsz \<le> unat ?he"
        using f(6) Cons by simp_all
      have sum: "unat (?sz + ?nsz) = unat ?sz + unat ?nsz"
        using nb f(3) he by (simp add: unat_word_ariths)
      have rest': "GET ?m' c = GET ?m c" if "c \<in> set post'" for c
        using that Cons by (intro rest) simp
      have "chain ?m' (NEXT_BLKP ?m ?n) post' ?he"
        using g(6) [unfolded n] rest' by (rule chain_cong)
      then have c': "chain ?m' ?b (?b # post') ?he"
        using sz' sum sz16 nb f(3) by (simp add: NEXT_BLKP_def add.assoc)
      have nf: "no_adjacent_free ?m (n # post')"
        using naf(2) Cons by (simp add: naf_Cons)
      then have "no_adjacent_free ?m' post'"
        using rest' by (simp add: naf_Cons naf_cong [of post' ?m' ?m] GET_ALLOC_def)
      moreover have "post' = [] \<or> GET_ALLOC ?m' (hd post') \<noteq> 0"
      proof (cases post')
        case Nil
        then show ?thesis by simp
      next
        case (Cons c post'')
        then have "GET_ALLOC ?m c \<noteq> 0"
          using nf True n by simp
        then show ?thesis
          using rest' [of c] Cons by (simp add: GET_ALLOC_def)
      qed
      ultimately have "no_adjacent_free ?m' (?b # post')"
        by (auto simp: naf_Cons)
      then show ?thesis
        using c' cs True Cons n by simp
    qed
  qed
  have "chain ?m' (heap_start s) (pre @ ?b # cs) ?he \<and> no_adjacent_free ?m' (pre @ ?b # cs)"
    if cs: "cs = (if post \<noteq> [] \<and> GET_ALLOC ?m (hd post) = 0 then tl post else post)" for cs
    using tail [OF cs] cpre' naf_pre' last' h(1)
    unfolding chain_append naf_append by blast
  then show ?thesis
    by simp
qed

theorem mm_free_keeps_no_adjacent_free_witness:
  "chain (mem freed_second) (heap_start freed_second) [0x1004, 0x1014, 0x1024]
     (heap_end freed_second)
   \<and> no_adjacent_free (mem freed_second) [0x1004, 0x1014, 0x1024]
   \<and> GET_ALLOC (mem freed_second) 0x1014 = 0
   \<and> chain (mem (mm_free freed_second 0x100C)) (heap_start (mm_free freed_second 0x100C))
       [0x1004, 0x1024] (heap_end (mm_free freed_second 0x100C))
   \<and> no_adjacent_free (mem (mm_free freed_second 0x100C)) [0x1004, 0x1024]
   \<and> chain (mem three_blocks) (heap_start three_blocks) [0x1004, 0x1014, 0x1024]
       (heap_end three_blocks)
   \<and> no_adjacent_free (mem three_blocks) [0x1004, 0x1014, 0x1024]
   \<and> GET_ALLOC (mem three_blocks) 0x1004 = 1
   \<and> chain (mem (mm_free three_blocks 0x101C)) (heap_start (mm_free three_blocks 0x101C))
       [0x1004, 0x1014, 0x1024] (heap_end (mm_free three_blocks 0x101C))
   \<and> no_adjacent_free (mem (mm_free three_blocks 0x101C)) [0x1004, 0x1014, 0x1024]"
proof -
  have a: "chain (mem freed_second) (heap_start freed_second)
      ([] @ HDRP 0x100C # [0x1014, 0x1024]) (heap_end freed_second)"
    and b: "no_adjacent_free (mem freed_second) ([] @ HDRP 0x100C # [0x1014, 0x1024])"
    and c: "([] :: addr list) = [] \<or> GET_ALLOC (mem freed_second) (last []) \<noteq> 0"
    and d: "GET_ALLOC (mem freed_second) 0x1014 = 0"
    by (simp_all add: session_defs run_simps)
  have e: "chain (mem three_blocks) (heap_start three_blocks)
      ([0x1004] @ HDRP 0x101C # [0x1024]) (heap_end three_blocks)"
    and f: "no_adjacent_free (mem three_blocks) ([0x1004] @ HDRP 0x101C # [0x1024])"
    and g: "[0x1004 :: addr] = [] \<or> GET_ALLOC (mem three_blocks) (last [0x1004]) \<noteq> 0"
    and h: "GET_ALLOC (mem three_blocks) 0x1004 = 1" "GET_ALLOC (mem three_blocks) 0x1024 = 1"
    by (simp_all add: session_defs run_simps)
  have k: "HDRP 0x100C = 0x1004" "HDRP 0x101C = 0x1014"
    by (simp_all add: HDRP_def)
  from mm_free_keeps_no_adjacent_free [OF a b c] mm_free_keeps_no_adjacent_free [OF e f g]
  have "chain (mem (mm_free freed_second 0x100C)) (heap_start (mm_free freed_second 0x100C))
       [0x1004, 0x1024] (heap_end (mm_free freed_second 0x100C))
     \<and> no_adjacent_free (mem (mm_free freed_second 0x100C)) [0x1004, 0x1024]
     \<and> chain (mem (mm_free three_blocks 0x101C)) (heap_start (mm_free three_blocks 0x101C))
       [0x1004, 0x1014, 0x1024] (heap_end (mm_free three_blocks 0x101C))
     \<and> no_adjacent_free (mem (mm_free three_blocks 0x101C)) [0x1004, 0x1014, 0x1024]"
    by (simp only: k d h append_Nil append_Cons list.sel if_True if_False simp_thms
        list.distinct not_False_eq_True one_neq_zero zero_neq_one)
  moreover have "chain (mem freed_second) (heap_start freed_second) [0x1004, 0x1014, 0x1024]
     (heap_end freed_second)"
    "no_adjacent_free (mem freed_second) [0x1004, 0x1014, 0x1024]"
    "chain (mem three_blocks) (heap_start three_blocks) [0x1004, 0x1014, 0x1024]
       (heap_end three_blocks)"
    "no_adjacent_free (mem three_blocks) [0x1004, 0x1014, 0x1024]"
    using a b e f by (simp_all only: k append_Nil append_Cons)
  ultimately show ?thesis
    using d h(1) by blast
qed

text \<open>
  The claim as stated fails in the session above: after \<^verbatim>\<open>mm_free\<close> of the first block and
  then of the second, the first two blocks of the heap are neighbours and both free.
  \<^verbatim>\<open>coalesce\<close> looks at the successor only; the block before the one freed is never
  examined.
\<close>

theorem adjacent_free_after_free:
  "mm_init boot = (empty_heap, 0)
   \<and> mm_malloc empty_heap 1 = Some (Inr (one_block, 0x100C))
   \<and> mm_malloc one_block 1 = Some (Inr (two_blocks, 0x101C))
   \<and> mm_malloc two_blocks 1 = Some (Inr (three_blocks, 0x102C))
   \<and> mm_free three_blocks 0x100C = freed_first
   \<and> mm_free freed_first 0x101C = freed_first_second
   \<and> chain (mem freed_first_second) (heap_start freed_first_second) [0x1004, 0x1014, 0x1024]
       (heap_end freed_first_second)
   \<and> GET_ALLOC (mem freed_first_second) 0x1004 = 0
   \<and> GET_ALLOC (mem freed_first_second) 0x1014 = 0
   \<and> \<not> no_adjacent_free (mem freed_first_second) [0x1004, 0x1014, 0x1024]"
proof -
  have a: "GET_ALLOC (mem freed_first_second) 0x1004 = 0"
    "GET_ALLOC (mem freed_first_second) 0x1014 = 0"
    by (simp_all add: session_defs run_simps)
  then have "\<not> no_adjacent_free (mem freed_first_second) [0x1004, 0x1014, 0x1024]"
    by simp
  then show ?thesis
    using a run_init run_malloc1 run_malloc2 run_malloc3 run_free_first run_free_first_second
      chain_freed_first_second
    by blast
qed

section \<open>Where \<^verbatim>\<open>mm_malloc\<close> writes\<close>

lemma byte_outside:
  fixes a q :: addr
  assumes "unat q + 8 \<le> unat a \<or> (unat a < unat q \<and> unat q \<le> 2 ^ 64 - 8)"
  shows "8 \<le> unat (a - q)"
proof -
  have "unat a < 2 ^ 64"
    using unsigned_less [of a] by simp
  then show ?thesis
    using assms by (auto simp: unat_sub_if')
qed

lemma unat_plus_no_wrap:
  fixes a d :: addr
  assumes "unat a + unat d < 2 ^ 64"
  shows "unat (a + d) = unat a + unat d"
  using assms by (simp add: unat_word_ariths)

lemma place_frame:
  assumes "8 dvd unat asize" and "8 \<le> unat (a - bp)"
    and "16 \<le> GET_SIZE (mem s) bp - asize \<Longrightarrow> 8 \<le> unat (a - (bp + asize))"
  shows "mem (place s bp asize) a = mem s a"
proof (cases "16 \<le> GET_SIZE (mem s) bp - asize")
  case True
  then show ?thesis
    using assms by (simp add: place_mem_split PUT_other_byte)
next
  case False
  then show ?thesis
    using assms by (simp add: place_mem_whole PUT_other_byte)
qed

lemma place_head:
  assumes "8 dvd unat asize" and "asize \<noteq> 0"
  shows "GET_ALLOC (mem (place s bp asize)) bp = 1"
    and "GET_SIZE (mem (place s bp asize)) bp =
      (if 16 \<le> GET_SIZE (mem s) bp - asize then asize else GET_SIZE (mem s) bp)"
proof -
  have r: "8 \<le> unat asize" "unat asize \<le> 2 ^ 64 - 8"
    using mult8_range [OF assms] by simp_all
  have head: "GET (PUT (PUT (mem s) bp (PACK asize 1)) (bp + asize) v) bp = PACK asize 1" for v
    using r by (simp add: GET_PUT_bwd GET_PUT_same)
  note c8 = GET_SIZE_dvd [of "mem s" bp]
  show "GET_ALLOC (mem (place s bp asize)) bp = 1"
    using assms(1) c8
    by (cases "16 \<le> GET_SIZE (mem s) bp - asize")
      (simp_all add: place_mem_split place_mem_whole GET_ALLOC_def head GET_PUT_same hdr_alloc_PACK)
  show "GET_SIZE (mem (place s bp asize)) bp =
      (if 16 \<le> GET_SIZE (mem s) bp - asize then asize else GET_SIZE (mem s) bp)"
    using assms(1) c8
    by (cases "16 \<le> GET_SIZE (mem s) bp - asize")
      (simp_all add: place_mem_split place_mem_whole GET_SIZE_def head GET_PUT_same hdr_size_PACK)
qed

text \<open>A remainder below 16 means the block is at least as large as the request.\<close>

lemma small_remainder:
  fixes c a :: size_t
  assumes "\<not> 16 \<le> c - a" and "unat a \<le> 2 ^ 64 - 16"
  shows "unat a \<le> unat c"
proof -
  have d: "unat (c - a) < 16"
    using assms(1) by (simp add: word_le_nat_alt)
  have "c = a + (c - a)"
    by simp
  moreover have "unat (a + (c - a)) = unat a + unat (c - a)"
    using d assms(2) by (intro unat_plus_no_wrap) simp
  ultimately show ?thesis
    by simp
qed

lemma chain_disjoint:
  "chain m a bs e \<Longrightarrow> b \<in> set bs \<Longrightarrow> c \<in> set bs \<Longrightarrow> b \<noteq> c \<Longrightarrow>
     unat b + unat (GET_SIZE m b) \<le> unat c \<or> unat c + unat (GET_SIZE m c) \<le> unat b"
proof (induction bs arbitrary: a)
  case Nil
  then show ?case by simp
next
  case (Cons x xs)
  note f = chain_Cons_facts [OF Cons.prems(1)]
  consider "b = x" "c \<in> set xs" | "c = x" "b \<in> set xs" | "b \<in> set xs" "c \<in> set xs"
    using Cons.prems by auto
  then show ?case
  proof cases
    case 1
    then show ?thesis
      using chain_block [OF f(6) 1(2)] f(1,3) by simp
  next
    case 2
    then show ?thesis
      using chain_block [OF f(6) 2(2)] f(1,3) by simp
  next
    case 3
    then show ?thesis
      using Cons.IH [OF f(6)] Cons.prems(4) by simp
  qed
qed

lemma mm_malloc_cases:
  assumes "chain (mem s) (heap_start s) bs (heap_end s)"
  shows "mm_malloc s sz =
    (if first_fit (mem s) (adjusted_size sz) bs \<noteq> NULL
     then Some (Inr (place s (first_fit (mem s) (adjusted_size sz) bs) (adjusted_size sz),
                     first_fit (mem s) (adjusted_size sz) bs + 8))
     else if snd (mem_sbrk s (adjusted_size sz)) = NULL then Some (Inl (Exit 1))
     else Some (Inr (place (fst (mem_sbrk s (adjusted_size sz))
                              \<lparr>heap_end := heap_end s + adjusted_size sz\<rparr>)
                       (mem_brk s) (adjusted_size sz), mem_brk s + 8)))"
proof -
  have "mem_brk s \<noteq> NULL" if "snd (mem_sbrk s (adjusted_size sz)) \<noteq> NULL"
    using that by (simp add: mem_sbrk_def split: if_splits)
  then show ?thesis
    using find_fit_loop_chain [OF assms, of "adjusted_size sz"]
    by (auto simp add: mm_malloc_def find_fit_def extend_heap_adjusted GET_PLD_PTR_def Let_def)
qed

lemma adjusted_size_bounds:
  assumes "unat sz \<le> 2 ^ 64 - 16"
  shows "unat sz + 8 \<le> unat (adjusted_size sz)" and "16 \<le> unat (adjusted_size sz)"
    and "adjusted_size sz \<noteq> 0"
proof -
  show 1: "unat sz + 8 \<le> unat (adjusted_size sz)"
    using adjusted_size_unat [OF assms] round_up_8 [of "unat sz"] by (simp split: if_splits)
  show 2: "16 \<le> unat (adjusted_size sz)"
    using adjusted_size_unat [OF assms] round_up_8 [of "unat sz"] by (simp split: if_splits)
  then show "adjusted_size sz \<noteq> 0"
    by auto
qed

text \<open>
  On a well-formed heap whose end is the break, a successful \<^verbatim>\<open>mm_malloc\<close> returns the
  payload of a block that lies apart from every allocated block, is marked allocated,
  is at least as large as the adjusted size, and leaves the bytes of every allocated
  block as they were.
\<close>

lemma mm_malloc_fresh:
  assumes wf: "chain (mem s) (heap_start s) bs (heap_end s)"
    and brk: "mem_brk s = heap_end s"
    and top: "unat (mem_max_addr s) \<le> 2 ^ 64 - 8"
    and bound: "unat sz \<le> 2 ^ 64 - 16"
    and res: "mm_malloc s sz = Some (Inr (s1, newp))"
    and b: "b \<in> set bs" "GET_ALLOC (mem s) b \<noteq> 0"
  shows "\<exists>nb. newp = nb + 8
      \<and> unat nb + unat (adjusted_size sz) < 2 ^ 64
      \<and> (unat b + unat (GET_SIZE (mem s) b) \<le> unat nb
          \<or> unat nb + unat (adjusted_size sz) \<le> unat b)
      \<and> GET_ALLOC (mem s1) nb = 1
      \<and> unat (adjusted_size sz) \<le> unat (GET_SIZE (mem s1) nb)
      \<and> (\<forall>a. unat b \<le> unat a \<and> unat a < unat b + unat (GET_SIZE (mem s) b)
            \<longrightarrow> mem s1 a = mem s a)"
proof -
  let ?A = "adjusted_size sz"
  let ?m = "mem s"
  let ?r = "first_fit ?m ?A bs"
  let ?he = "heap_end s"
  let ?osz = "GET_SIZE ?m b"
  note A8 = adjusted_size_dvd [of sz]
  note Ab = adjusted_size_bounds [OF bound]
  have bb: "16 \<le> unat ?osz" "unat b + unat ?osz \<le> unat ?he"
    using chain_block [OF wf b(1)] by simp_all
  have he: "unat ?he < 2 ^ 64"
    using unsigned_less [of ?he] by simp
  note cases = mm_malloc_cases [OF wf, of sz]
  show ?thesis
  proof (cases "?r = NULL")
    case False
    then have s1: "s1 = place s ?r ?A" and newp: "newp = ?r + 8"
      using res cases by simp_all
    have rin: "?r \<in> set bs" and rfit: "fits ?m ?A ?r"
      using first_fit_cases [of bs ?m ?A] False by blast+
    let ?c = "GET_SIZE ?m ?r"
    have rb: "16 \<le> unat ?c" "unat ?r + unat ?c \<le> unat ?he"
      using chain_block [OF wf rin] by simp_all
    have Ac: "unat ?A \<le> unat ?c"
      using rfit by (simp add: fits_def word_le_nat_alt)
    have "?r \<noteq> b"
      using rfit b(2) by (auto simp: fits_def)
    then have dis: "unat b + unat ?osz \<le> unat ?r \<or> unat ?r + unat ?c \<le> unat b"
      using chain_disjoint [OF wf b(1) rin] by simp
    have rA: "unat (?r + ?A) = unat ?r + unat ?A"
      using Ac rb he by (intro unat_plus_no_wrap) simp
    have frame: "mem s1 a = ?m a" if a: "unat b \<le> unat a" "unat a < unat b + unat ?osz" for a
      unfolding s1
    proof (rule place_frame [OF A8])
      show "8 \<le> unat (a - ?r)"
        using dis a rb he by (intro byte_outside) (simp; linarith)
      assume "16 \<le> ?c - ?A"
      then have "unat ?A + 16 \<le> unat ?c"
        using rfit by (simp add: fits_def word_le_nat_alt unat_sub)
      then show "8 \<le> unat (a - (?r + ?A))"
        using dis a rb he Ac by (intro byte_outside) (simp add: rA; linarith)
    qed
    have "GET_ALLOC (mem s1) ?r = 1" "unat ?A \<le> unat (GET_SIZE (mem s1) ?r)"
      using Ac by (simp_all add: s1 place_head [OF A8 Ab(3)])
    moreover have "unat ?r + unat ?A < 2 ^ 64"
      using Ac rb he by simp
    moreover have "unat b + unat ?osz \<le> unat ?r \<or> unat ?r + unat ?A \<le> unat b"
      using dis Ac by linarith
    ultimately show ?thesis
      using newp frame by blast
  next
    case True
    let ?s' = "fst (mem_sbrk s ?A)\<lparr>heap_end := ?he + ?A\<rparr>"
    have ok: "snd (mem_sbrk s ?A) \<noteq> NULL"
      using res cases True by (auto split: if_splits)
    then have s1: "s1 = place ?s' ?he ?A" and newp: "newp = ?he + 8"
      using res cases True brk by simp_all
    have room: "unat ?he + unat ?A \<le> 2 ^ 64 - 8"
      using ok top brk by (simp add: mem_sbrk_def split: if_splits)
    have mem': "mem ?s' = ?m"
      by (simp add: mem_sbrk_def)
    have hA: "unat (?he + ?A) = unat ?he + unat ?A"
      using room by (intro unat_plus_no_wrap) simp
    have Asmall: "unat ?A \<le> 2 ^ 64 - 16"
      using room bb by simp
    have frame: "mem s1 a = ?m a" if a: "unat b \<le> unat a" "unat a < unat b + unat ?osz" for a
    proof -
      have "mem (place ?s' ?he ?A) a = mem ?s' a"
      proof (rule place_frame [OF A8])
        show "8 \<le> unat (a - ?he)"
          using a bb room by (intro byte_outside) (simp; linarith)
        show "8 \<le> unat (a - (?he + ?A))"
          using a bb room by (intro byte_outside) (simp add: hA; linarith)
      qed
      then show ?thesis
        by (simp add: s1 mem')
    qed
    have "unat ?A \<le> unat (GET_SIZE (mem ?s') ?he)" if "\<not> 16 \<le> GET_SIZE (mem ?s') ?he - ?A"
      using that Asmall by (rule small_remainder)
    then have "GET_ALLOC (mem s1) ?he = 1" "unat ?A \<le> unat (GET_SIZE (mem s1) ?he)"
      by (simp_all add: s1 place_head [OF A8 Ab(3)])
    moreover have "unat ?he + unat ?A < 2 ^ 64"
      using room by simp
    ultimately show ?thesis
      using newp frame bb(2) by blast
  qed
qed

section \<open>Reallocation\<close>

lemma memcpy_inside:
  assumes "i < unat n"
  shows "memcpy m dst src n (dst + of_nat i) = m (src + of_nat i)"
proof -
  have "unat n < 2 ^ 64"
    using unsigned_less [of n] by simp
  then have "unat (of_nat i :: addr) = i"
    using assms by (simp add: unat_of_nat)
  then have "(of_nat i :: addr) < n"
    using assms by (simp add: word_less_nat_alt)
  then show ?thesis
    by (simp add: memcpy_def)
qed

lemma memcpy_outside:
  assumes "unat dst + unat n \<le> 2 ^ 64"
    and "unat a < unat dst \<or> unat dst + unat n \<le> unat a"
  shows "memcpy m dst src n a = m a"
proof -
  have "unat a < 2 ^ 64"
    using unsigned_less [of a] by simp
  then have "unat n \<le> unat (a - dst)"
    using assms by (auto simp: unat_sub_if')
  then have "\<not> a - dst < n"
    by (simp add: word_less_nat_alt)
  then show ?thesis
    by (simp add: memcpy_def)
qed

lemma GET_SIZE_cong: "GET m' c = GET m c \<Longrightarrow> GET_SIZE m' c = GET_SIZE m c"
  by (simp add: GET_SIZE_def)

lemma GET_ALLOC_cong: "GET m' c = GET m c \<Longrightarrow> GET_ALLOC m' c = GET_ALLOC m c"
  by (simp add: GET_ALLOC_def)

lemma unat_plus_of_nat:
  fixes a :: addr
  assumes "unat a + i < 2 ^ 64"
  shows "unat (a + of_nat i) = unat a + i"
  using assms by (simp add: unat_word_ariths unat_of_nat)

text \<open>
  Reallocation where the adjusted size does not wrap around. Let \<open>p\<close> be the payload
  pointer of an allocated block of a well-formed heap whose end is the break, and let
  the new size be at most \<open>2 ^ 64 - 16\<close>. \<^verbatim>\<open>mm_realloc\<close> always comes to an end. It ends the process only when
  the search finds no fit and the growth primitive fails. Otherwise it returns the pointer
  that \<^verbatim>\<open>mm_malloc\<close> returned for the new size, having copied exactly
  \<open>min(new size, old block size)\<close> bytes from \<open>p\<close> to it and having freed the old block:
  the first \<open>min(new size, old block size - 8)\<close> bytes at the new pointer are the bytes
  that the old payload held, the new block is allocated and has at least the new size
  in payload bytes, and the old block is free.
\<close>

theorem mm_realloc_spec:
  assumes wf: "chain (mem s) (heap_start s) bs (heap_end s)"
    and brk: "mem_brk s = heap_end s"
    and top: "unat (mem_max_addr s) \<le> 2 ^ 64 - 8"
    and live: "HDRP p \<in> set bs" "GET_ALLOC (mem s) (HDRP p) \<noteq> 0"
    and bound: "unat sz \<le> 2 ^ 64 - 16"
  shows "case mm_realloc s p sz of
      None \<Rightarrow> False
    | Some (Inl e) \<Rightarrow>
        e = Exit 1 \<and> find_fit s (adjusted_size sz) = Some NULL
        \<and> snd (mem_sbrk s (adjusted_size sz)) = NULL
    | Some (Inr (s', newp)) \<Rightarrow>
        (\<exists>s1. mm_malloc s sz = Some (Inr (s1, newp))
            \<and> s' = mm_free
                 (s1\<lparr>mem := memcpy (mem s1) newp p (min sz (GET_SIZE (mem s) (HDRP p)))\<rparr>) p)
        \<and> (\<forall>i < min (unat sz) (unat (GET_SIZE (mem s) (HDRP p)) - 8).
              mem s' (newp + of_nat i) = mem s (p + of_nat i))
        \<and> GET_ALLOC (mem s') (HDRP newp) = 1
        \<and> unat sz + 8 \<le> unat (GET_SIZE (mem s') (HDRP newp))
        \<and> GET_ALLOC (mem s') (HDRP p) = 0"
proof -
  let ?A = "adjusted_size sz"
  let ?m = "mem s"
  let ?b = "HDRP p"
  let ?osz = "GET_SIZE ?m ?b"
  let ?he = "heap_end s"
  note Ab = adjusted_size_bounds [OF bound]
  have p: "p = ?b + 8"
    by (simp add: HDRP_def)
  have bb: "16 \<le> unat ?osz" "unat ?b + unat ?osz \<le> unat ?he"
    using chain_block [OF wf live(1)] by simp_all
  have he: "unat ?he < 2 ^ 64"
    using unsigned_less [of ?he] by simp
  note cases = mm_malloc_cases [OF wf, of sz]
  show ?thesis
  proof (cases "first_fit ?m ?A bs = NULL \<and> snd (mem_sbrk s ?A) = NULL")
    case True
    then have "mm_malloc s sz = Some (Inl (Exit 1))"
      using cases by simp
    then have "mm_realloc s p sz = Some (Inl (Exit 1))"
      by (simp add: mm_realloc_def)
    moreover have "find_fit s ?A = Some NULL"
      using True find_fit_loop_chain [OF wf, of ?A] by (simp add: find_fit_def)
    ultimately show ?thesis
      using True by simp
  next
    case False
    then obtain s1 newp where res: "mm_malloc s sz = Some (Inr (s1, newp))"
      using cases by (auto split: if_splits)
    from mm_malloc_fresh [OF wf brk top bound res live]
    obtain nb where newp: "newp = nb + 8"
      and room: "unat nb + unat ?A < 2 ^ 64"
      and dis: "unat ?b + unat ?osz \<le> unat nb \<or> unat nb + unat ?A \<le> unat ?b"
      and nalloc: "GET_ALLOC (mem s1) nb = 1"
      and nsize: "unat ?A \<le> unat (GET_SIZE (mem s1) nb)"
      and frame: "\<And>a. unat ?b \<le> unat a \<Longrightarrow> unat a < unat ?b + unat ?osz \<Longrightarrow> mem s1 a = ?m a"
      by blast
    let ?m1 = "mem s1"
    let ?n = "min sz ?osz"
    let ?m2 = "memcpy ?m1 newp p ?n"
    let ?s2 = "s1\<lparr>mem := ?m2\<rparr>"
    let ?s3 = "mm_free ?s2 p"
    let ?m3 = "mem ?s3"
    have unewp: "unat newp = unat nb + 8"
      unfolding newp using unat_plus_no_wrap [of nb 8] room Ab(2) by simp
    then have nn: "newp \<noteq> NULL"
      by (auto simp: NULL_def)
    have hnew: "HDRP newp = nb"
      by (simp add: HDRP_def newp)
    have un: "unat ?n = min (unat sz) (unat ?osz)"
      by (simp add: min_def word_le_nat_alt)
    have fit: "unat newp + unat ?n \<le> unat nb + unat ?A"
      using unewp un Ab(1) by simp
    \<comment> \<open>the old header is still there after \<^verbatim>\<open>mm_malloc\<close> and after the copy\<close>
    have old1: "GET ?m1 ?b = GET ?m ?b"
    proof (rule GET_eqI)
      fix i :: nat
      assume i: "i < 8"
      then have "unat (?b + of_nat i) = unat ?b + i"
        using bb he by (intro unat_plus_of_nat) simp
      then show "?m1 (?b + of_nat i) = ?m (?b + of_nat i)"
        using i bb by (intro frame) simp_all
    qed
    have old2: "GET ?m2 ?b = GET ?m1 ?b"
    proof (rule GET_eqI)
      fix i :: nat
      assume i: "i < 8"
      then have "unat (?b + of_nat i) = unat ?b + i"
        using bb he by (intro unat_plus_of_nat) simp
      then show "?m2 (?b + of_nat i) = ?m1 (?b + of_nat i)"
        using i bb dis fit room unewp by (intro memcpy_outside) (simp; linarith)+
    qed
    have osz1: "GET_SIZE ?m1 ?b = ?osz"
      using old1 by (rule GET_SIZE_cong)
    have "GET ?m2 ?b = GET ?m ?b"
      using old1 old2 by (rule trans [rotated])
    then have "GET_SIZE ?m2 ?b = ?osz"
      by (rule GET_SIZE_cong)
    then have nz: "GET_SIZE (mem ?s2) ?b \<noteq> 0"
      using bb(1) by auto
    note h = mm_free_header [OF nz]
    have mn: "(if sz < ?osz then sz else ?osz) = ?n"
      by (auto simp: min_def)
    have real: "mm_realloc s p sz = Some (Inr (?s3, newp))"
      using res nn by (simp add: mm_realloc_def osz1 Let_def mn)
    \<comment> \<open>the copied bytes\<close>
    have bytes: "?m3 (newp + of_nat i) = ?m (p + of_nat i)"
      if i: "i < min (unat sz) (unat ?osz - 8)" for i
    proof -
      have i_n: "i < unat ?n"
        using i un by (simp; linarith)
      have up: "unat (p + of_nat i) = unat ?b + (8 + i)"
      proof -
        have "unat (?b + of_nat (8 + i)) = unat ?b + (8 + i)"
          using i bb he by (intro unat_plus_of_nat) (simp; linarith)
        then show ?thesis
          by (simp add: HDRP_def)
      qed
      have unp: "unat (newp + of_nat i) = unat newp + i"
        using i_n fit room by (intro unat_plus_of_nat) (simp; linarith)
      have "8 \<le> unat (newp + of_nat i - ?b)"
        using dis unp unewp i_n fit bb he by (intro byte_outside) (simp; linarith)
      then have "?m3 (newp + of_nat i) = ?m2 (newp + of_nat i)"
        using h(3) by simp
      also have "\<dots> = ?m1 (p + of_nat i)"
        using i_n by (rule memcpy_inside)
      also have "\<dots> = ?m (p + of_nat i)"
        using up i by (intro frame) (simp; linarith)+
      finally show ?thesis .
    qed
    \<comment> \<open>the new header\<close>
    have new2: "GET ?m2 nb = GET ?m1 nb"
    proof (rule GET_eqI)
      fix i :: nat
      assume i: "i < 8"
      then have "unat (nb + of_nat i) = unat nb + i"
        using room Ab(2) by (intro unat_plus_of_nat) simp
      then show "?m2 (nb + of_nat i) = ?m1 (nb + of_nat i)"
        using i fit room unewp by (intro memcpy_outside) (simp; linarith)+
    qed
    have new3: "GET ?m3 nb = GET ?m2 nb"
      using dis bb he room Ab(2) h(3) by (intro GET_frame [where b = ?b]) (simp; linarith)+
    have "GET ?m3 nb = GET ?m1 nb"
      using new2 new3 by (rule trans [rotated])
    then have "GET_ALLOC ?m3 nb = GET_ALLOC ?m1 nb" "GET_SIZE ?m3 nb = GET_SIZE ?m1 nb"
      by (rule GET_ALLOC_cong, rule GET_SIZE_cong)
    then have "GET_ALLOC ?m3 (HDRP newp) = 1" "unat sz + 8 \<le> unat (GET_SIZE ?m3 (HDRP newp))"
      using nalloc nsize Ab(1) by (simp_all add: hnew)
    moreover have "GET_ALLOC ?m3 ?b = 0"
      by (rule h(1))
    ultimately show ?thesis
      using res bytes by (simp add: real)
  qed
qed

lemma GET_memcpy_outside:
  assumes "unat dst + unat n \<le> 2 ^ 64"
    and "unat q + 8 \<le> unat dst \<or> unat dst + unat n \<le> unat q \<and> unat q + 8 \<le> 2 ^ 64"
  shows "GET (memcpy m dst src n) q = GET m q"
proof (rule GET_eqI)
  fix i :: nat
  assume i: "i < 8"
  have "unat dst < 2 ^ 64"
    using unsigned_less [of dst] by simp
  then have "unat (q + of_nat i) = unat q + i"
    using i assms(2) by (intro unat_plus_of_nat) (simp; linarith)
  then show "memcpy m dst src n (q + of_nat i) = m (q + of_nat i)"
    using i assms by (intro memcpy_outside) (simp; linarith)+
qed

lemma GET_eqI2:
  assumes "\<And>i. i < 8 \<Longrightarrow> m (p + of_nat i) = m' (p' + of_nat i)"
  shows "GET m p = GET m' p'"
  using assms [of 0] assms [of 1] assms [of 2] assms [of 3] assms [of 4] assms [of 5]
    assms [of 6] assms [of 7]
  by (simp add: GET_def)

lemma GET_memcpy_inside:
  assumes "unat (q - dst) + 8 \<le> unat n"
  shows "GET (memcpy m dst src n) q = GET m (src + (q - dst))"
proof (rule GET_eqI2)
  fix i :: nat
  assume i: "i < 8"
  have "unat n < 2 ^ 64"
    using unsigned_less [of n] by simp
  then have "unat ((q - dst) + of_nat i) = unat (q - dst) + i"
    using i assms by (intro unat_plus_of_nat) simp
  then have "(q - dst) + of_nat i < n"
    using i assms by (simp add: word_less_nat_alt)
  then have "q + of_nat i - dst < n"
    by (simp add: algebra_simps)
  then show "memcpy m dst src n (q + of_nat i) = m (src + (q - dst) + of_nat i)"
    by (simp add: memcpy_def algebra_simps)
qed

lemmas realloc_simps = three_blocks_written_def moved_def wrapped_def GET_memcpy_outside
  GET_memcpy_inside

lemma chain_three_blocks_written:
  "chain (mem three_blocks_written) (heap_start three_blocks_written) [0x1004, 0x1014, 0x1024]
     (heap_end three_blocks_written)"
  by (simp add: realloc_simps session_defs run_simps)

lemma run_realloc: "mm_realloc three_blocks_written 0x100C 20 = Some (Inr (moved, 0x103C))"
  by (simp add: realloc_simps session_defs run_simps)

theorem mm_realloc_spec_witness:
  "chain (mem three_blocks_written) (heap_start three_blocks_written) [0x1004, 0x1014, 0x1024]
     (heap_end three_blocks_written)
   \<and> mem_brk three_blocks_written = heap_end three_blocks_written
   \<and> HDRP 0x100C \<in> set [0x1004, 0x1014, 0x1024]
   \<and> GET_ALLOC (mem three_blocks_written) (HDRP 0x100C) = 1
   \<and> GET_SIZE (mem three_blocks_written) (HDRP 0x100C) = 16
   \<and> GET (mem three_blocks_written) 0x100C = 0x0123456789ABCDEF
   \<and> mm_realloc three_blocks_written 0x100C 20 = Some (Inr (moved, 0x103C))
   \<and> GET (mem moved) 0x103C = 0x0123456789ABCDEF
   \<and> mem moved (0x103C + of_nat 7) = mem three_blocks_written (0x100C + of_nat 7)
   \<and> GET_ALLOC (mem moved) (HDRP 0x103C) = 1
   \<and> unat (20 :: size_t) + 8 \<le> unat (GET_SIZE (mem moved) (HDRP 0x103C))
   \<and> GET_ALLOC (mem moved) (HDRP 0x100C) = 0"
proof -
  note c = chain_three_blocks_written
  have b: "mem_brk three_blocks_written = heap_end three_blocks_written"
    and t: "unat (mem_max_addr three_blocks_written) \<le> 2 ^ 64 - 8"
    and l: "HDRP 0x100C \<in> set [0x1004, 0x1014, 0x1024]"
      "GET_ALLOC (mem three_blocks_written) (HDRP 0x100C) \<noteq> 0"
    and n: "unat (20 :: size_t) \<le> 2 ^ 64 - 16"
    by (simp_all add: realloc_simps session_defs run_simps)
  have v: "GET_ALLOC (mem three_blocks_written) (HDRP 0x100C) = 1"
    "GET_SIZE (mem three_blocks_written) (HDRP 0x100C) = 16"
    "GET (mem three_blocks_written) 0x100C = 0x0123456789ABCDEF"
    "GET (mem moved) 0x103C = 0x0123456789ABCDEF"
    by (simp_all add: realloc_simps session_defs run_simps)
  have i: "7 < min (unat (20 :: size_t)) (unat (16 :: size_t) - 8)"
    by simp
  from mm_realloc_spec [OF c b t l n]
  have "(\<forall>i < min (unat (20 :: size_t)) (unat (16 :: size_t) - 8).
            mem moved (0x103C + of_nat i) = mem three_blocks_written (0x100C + of_nat i))
    \<and> GET_ALLOC (mem moved) (HDRP 0x103C) = 1
    \<and> unat (20 :: size_t) + 8 \<le> unat (GET_SIZE (mem moved) (HDRP 0x103C))
    \<and> GET_ALLOC (mem moved) (HDRP 0x100C) = 0"
    by (simp only: run_realloc v option.case sum.case prod.case) blast
  then show ?thesis
    using c b l(1) v run_realloc i by blast
qed

text \<open>
  C8. \<^verbatim>\<open>mm_realloc\<close> is meant, for every live pointer and every new size, to allocate a
  fresh block for the new size, copy \<open>min(new size, old block size)\<close> bytes of the old
  payload into it, free the old block and return the new pointer, a block with at least
  the new size in payload bytes. The code departs from this near the top of \<^verbatim>\<open>size_t\<close>,
  through the same unchecked sum in \<^verbatim>\<open>mm_malloc\<close>: on the one-block heap, for the live
  pointer \<open>0x100C\<close> and a new size of \<open>2 ^ 64 - 1\<close>, the adjusted size wraps around to 8
  and the pointer returned, \<open>0x101C\<close>, is \<^verbatim>\<open>heap_end\<close>: its block has size 8 and no payload
  byte. The 16 bytes copied land beyond \<^verbatim>\<open>heap_end\<close> and beyond the break; the word at
  \<open>0x1024\<close> is a copy of the new block's own header.
\<close>

theorem mm_realloc_wraps:
  "chain (mem one_block) (heap_start one_block) [0x1004] (heap_end one_block)
   \<and> GET_ALLOC (mem one_block) (HDRP 0x100C) = 1
   \<and> GET_SIZE (mem one_block) (HDRP 0x100C) = 16
   \<and> mm_realloc one_block 0x100C 0xFFFFFFFFFFFFFFFF = Some (Inr (wrapped, 0x101C))
   \<and> GET_SIZE (mem wrapped) (HDRP 0x101C) = 8
   \<and> unat (GET_SIZE (mem wrapped) (HDRP 0x101C)) < unat (0xFFFFFFFFFFFFFFFF :: size_t) + 8
   \<and> heap_end wrapped = 0x101C
   \<and> mem_brk wrapped = 0x101C
   \<and> GET (mem wrapped) 0x1024 = 9"
  by (simp add: tiny_block_def realloc_simps session_defs run_simps)

end
